theory Spec2Isabelle
  imports Main "HOL-Library.Sublist" "HOL-Library.Char_ord" "HOL-Library.List_Lexorder"
begin

section \<open>Strings and the extension marker\<close>

text \<open>
  The script \<^verbatim>\<open>scrape_avif_images.py\<close> keeps every URL as a Python \<^verbatim>\<open>str\<close>; here a
  string is a \<^typ>\<open>string\<close> (a list of characters). \<^verbatim>\<open>".avif" in src\<close> is Python's
  substring test.
\<close>

fun str_in :: "string \<Rightarrow> string \<Rightarrow> bool" where
  "str_in sub [] = (sub = [])"
| "str_in sub (c # cs) = (prefix sub (c # cs) \<or> str_in sub cs)"

definition avif :: string where
  "avif = ''.avif''"

section \<open>The pattern of line 69\<close>

text \<open>
  \<^verbatim>\<open>re.findall(r'url\(["\']?([^"\']+\.avif[^"\']*)["\']?\)', style)\<close>

  Python's \<^verbatim>\<open>re\<close> is a backtracking matcher. Each piece of the pattern is modelled
  by the list of all the ways it can match at the front of the input, in the order in
  which the matcher tries them (a greedy quantifier tries the longest first); a way is
  the pair of the text consumed and the input that is left. The pieces are sequenced
  with a list comprehension, which keeps that order, so the head of the resulting list
  is the match that \<^verbatim>\<open>re\<close> reports.
\<close>

definition is_quote :: "char \<Rightarrow> bool" where
  "is_quote c = (c = CHR 0x22 \<or> c = CHR 0x27)"

definition not_quote :: "char \<Rightarrow> bool" where
  "not_quote c = (\<not> is_quote c)"

definition literal :: "string \<Rightarrow> string \<Rightarrow> (string \<times> string) list" where
  "literal l s = (if prefix l s then [(l, drop (length l) s)] else [])"

fun optional :: "(char \<Rightarrow> bool) \<Rightarrow> string \<Rightarrow> (string \<times> string) list" where
  "optional cl [] = [([], [])]"
| "optional cl (c # cs) = (if cl c then [([c], cs), ([], c # cs)] else [([], c # cs)])"

fun star :: "(char \<Rightarrow> bool) \<Rightarrow> string \<Rightarrow> (string \<times> string) list" where
  "star cl [] = [([], [])]"
| "star cl (c # cs) =
     (if cl c then map (\<lambda>(pre, rest). (c # pre, rest)) (star cl cs) @ [([], c # cs)]
      else [([], c # cs)])"

definition plus :: "(char \<Rightarrow> bool) \<Rightarrow> string \<Rightarrow> (string \<times> string) list" where
  "plus cl s = filter (\<lambda>(pre, rest). pre \<noteq> []) (star cl s)"

text \<open>All matches of the whole pattern that start at the front of \<open>s\<close>: (group 1, rest).\<close>

definition match_here :: "string \<Rightarrow> (string \<times> string) list" where
  "match_here s =
     [(a @ b @ c, s7).
        (u, s1) \<leftarrow> literal ''url('' s,
        (q1, s2) \<leftarrow> optional is_quote s1,
        (a, s3) \<leftarrow> plus not_quote s2,
        (b, s4) \<leftarrow> literal ''.avif'' s3,
        (c, s5) \<leftarrow> star not_quote s4,
        (q2, s6) \<leftarrow> optional is_quote s5,
        (p, s7) \<leftarrow> literal '')'' s6]"

text \<open>
  \<^verbatim>\<open>re.findall\<close> scans from left to right: where the pattern matches, it reports group 1
  and goes on after the end of the match; where it does not, it moves one character on.
\<close>

function findall :: "string \<Rightarrow> string list" where
  "findall s =
     (case match_here s of
        (g, rest) # _ \<Rightarrow> g # findall rest
      | [] \<Rightarrow> (case s of [] \<Rightarrow> [] | _ # cs \<Rightarrow> findall cs))"
  by pat_completeness auto
termination
proof (relation "measure length")
  fix s m ms g rest
  assume "match_here s = m # ms" "(g, rest) = m"
  then have "(g, rest) \<in> set (match_here s)" by simp
  then obtain u s1 q1 s2 a s3 b s4 c s5 q2 s6 p where
    1: "(u, s1) \<in> set (literal ''url('' s)" and
    2: "(q1, s2) \<in> set (optional is_quote s1)" and
    3: "(a, s3) \<in> set (plus not_quote s2)" and
    4: "(b, s4) \<in> set (literal ''.avif'' s3)" and
    5: "(c, s5) \<in> set (star not_quote s4)" and
    6: "(q2, s6) \<in> set (optional is_quote s5)" and
    7: "(p, rest) \<in> set (literal '')'' s6)"
    unfolding match_here_def by auto
  have lit: "length r \<le> length t" if "(x, r) \<in> set (literal l t)" for x r l t
    using that by (auto simp: literal_def split: if_splits)
  have opt: "length r \<le> length t" if "(x, r) \<in> set (optional cl t)" for x r cl t
    using that by (cases t) (auto split: if_splits)
  have st: "length r \<le> length t" if "(x, r) \<in> set (star cl t)" for x r cl t
    using that by (induction t arbitrary: x r) (force split: if_splits)+
  have "length s1 < length s"
    using 1 by (auto simp: literal_def prefix_def split: if_splits)
  moreover have "length s2 \<le> length s1" using opt[OF 2] .
  moreover have "length s3 \<le> length s2" using 3 st by (auto simp: plus_def)
  moreover have "length s4 \<le> length s3" using lit[OF 4] .
  moreover have "length s5 \<le> length s4" using st[OF 5] .
  moreover have "length s6 \<le> length s5" using opt[OF 6] .
  moreover have "length rest \<le> length s6" using lit[OF 7] .
  ultimately show "(rest, s) \<in> measure length" by simp
qed auto


section \<open>The browser, as the script sees it\<close>

text \<open>
  The script talks to the page only through WebDriver calls, and each of them either
  answers or raises. A \<open>scan_pass\<close> holds the answers the driver gives during one
  iteration of the \<^verbatim>\<open>while\<close> loop (lines 48 to 95), in the order of the calls:
  the scroll of line 50, \<^verbatim>\<open>find_elements(By.TAG_NAME, "img")\<close> with the
  \<^verbatim>\<open>get_attribute("src")\<close> of each element found (\<open>None\<close> when the attribute is
  absent), \<^verbatim>\<open>find_elements(By.XPATH, "//*[@style]")\<close> with the
  \<^verbatim>\<open>get_attribute("style")\<close> of each element, the three geometry reads of lines 87
  to 89 (pixel counts, taken as integers) and the scroll of line 94. A \<open>browser\<close> is
  everything outside the script: whether each engine starts, whether \<^verbatim>\<open>driver.get\<close>
  succeeds, and the passes, numbered from 0. \<^verbatim>\<open>driver.quit()\<close>, \<^verbatim>\<open>print\<close> and
  \<^verbatim>\<open>time.sleep\<close> are taken not to raise.
\<close>

datatype error = WebDriverException

type_synonym 'a result = "error + 'a"

datatype engine = Chrome | Firefox

record scan_pass =
  scroll_to_bottom :: "unit result"
  images :: "string option result list result"
  elements_with_bg :: "string option result list result"
  scroll_position :: "int result"
  page_height :: "int result"
  window_height :: "int result"
  extra_scroll :: "unit result"

record browser =
  chrome :: "unit result"
  firefox :: "unit result"
  get_page :: "unit result"
  passes :: "nat \<Rightarrow> scan_pass"

text \<open>What the script does to the outside world, in order: console lines, driver
  commands that act on the browser, and sleeps (in seconds).\<close>

datatype message =
    Initializing | Chrome_not_found | No_driver | Loading string | Starting
  | Found nat | Stopping nat | Total_found nat | Listing nat string | Error_occurred | Closing

datatype event =
    Print message | Launch engine | Navigate string | Sleep nat | Scroll_to_bottom | Quit

section \<open>Lines 20 to 29: starting a browser\<close>

definition initialize_driver :: "browser \<Rightarrow> event list \<Rightarrow> (nat + engine) \<times> event list" where
  "initialize_driver b tr =
     (case chrome b of
        Inr _ \<Rightarrow> (Inr Chrome, tr @ [Launch Chrome])
      | Inl e \<Rightarrow>
          (case firefox b of
             Inr _ \<Rightarrow> (Inr Firefox, tr @ [Launch Chrome, Print Chrome_not_found, Launch Firefox])
           | Inl e2 \<Rightarrow>
               (Inl 1, tr @ [Launch Chrome, Print Chrome_not_found, Launch Firefox,
                             Print No_driver])))"

section \<open>Lines 53 to 71: the two scans\<close>

text \<open>
  \<^verbatim>\<open>if src and ".avif" in src\<close>: \<^verbatim>\<open>None\<close> and the empty string are falsy, so the
  substring test is only reached on a non-empty string. An exception raised by
  \<^verbatim>\<open>get_attribute\<close> leaves the scan at once.
\<close>

fun scan_images :: "string option result list \<Rightarrow> string set \<Rightarrow> error + string set" where
  "scan_images [] urls = Inr urls"
| "scan_images (Inl e # imgs) urls = Inl e"
| "scan_images (Inr None # imgs) urls = scan_images imgs urls"
| "scan_images (Inr (Some src) # imgs) urls =
     (if src \<noteq> [] \<and> str_in avif src then scan_images imgs (insert src urls)
      else scan_images imgs urls)"

fun scan_styles :: "string option result list \<Rightarrow> string set \<Rightarrow> error + string set" where
  "scan_styles [] urls = Inr urls"
| "scan_styles (Inl e # elems) urls = Inl e"
| "scan_styles (Inr None # elems) urls = scan_styles elems urls"
| "scan_styles (Inr (Some style) # elems) urls =
     (if style \<noteq> [] \<and> str_in avif style
      then scan_styles elems (fold insert (findall style) urls)
      else scan_styles elems urls)"

section \<open>Lines 40 to 95: the loop\<close>

record loop_state =
  image_urls :: "string set"
  last_count :: nat
  scroll_attempts :: nat

definition max_scroll_attempts :: nat where
  "max_scroll_attempts = 100"

definition no_new_images_threshold :: nat where
  "no_new_images_threshold = 3"

datatype flow = Break | Continue

text \<open>Lines 86 to 95, reached only when the iteration did not \<^verbatim>\<open>break\<close>.\<close>

definition bottom_check :: "scan_pass \<Rightarrow> event list \<Rightarrow> (error + unit) \<times> event list" where
  "bottom_check p tr =
     (case scroll_position p of Inl e \<Rightarrow> (Inl e, tr) | Inr sp \<Rightarrow>
     (case page_height p of Inl e \<Rightarrow> (Inl e, tr) | Inr ph \<Rightarrow>
     (case window_height p of Inl e \<Rightarrow> (Inl e, tr) | Inr wh \<Rightarrow>
        if sp + wh \<ge> ph - 10 then
          (case extra_scroll p of
             Inl e \<Rightarrow> (Inl e, tr @ [Sleep 1])
           | Inr _ \<Rightarrow> (Inr (), tr @ [Sleep 1, Scroll_to_bottom, Sleep 2]))
        else (Inr (), tr))))"

definition finish_pass ::
  "scan_pass \<Rightarrow> loop_state \<Rightarrow> event list \<Rightarrow> (error + flow \<times> loop_state) \<times> event list" where
  "finish_pass p s tr =
     (case bottom_check p tr of
        (Inl e, tr') \<Rightarrow> (Inl e, tr')
      | (Inr _, tr') \<Rightarrow> (Inr (Continue, s), tr'))"

text \<open>One iteration of the \<^verbatim>\<open>while\<close> body, lines 49 to 95.\<close>

definition pass_body ::
  "scan_pass \<Rightarrow> loop_state \<Rightarrow> event list \<Rightarrow> (error + flow \<times> loop_state) \<times> event list" where
  "pass_body p s tr =
     (case scroll_to_bottom p of Inl e \<Rightarrow> (Inl e, tr) | Inr _ \<Rightarrow>
     (let tr = tr @ [Scroll_to_bottom, Sleep 2] in
      case images p of Inl e \<Rightarrow> (Inl e, tr) | Inr imgs \<Rightarrow>
     (case scan_images imgs (image_urls s) of Inl e \<Rightarrow> (Inl e, tr) | Inr urls1 \<Rightarrow>
     (case elements_with_bg p of Inl e \<Rightarrow> (Inl e, tr) | Inr elems \<Rightarrow>
     (case scan_styles elems urls1 of Inl e \<Rightarrow> (Inl e, tr) | Inr urls2 \<Rightarrow>
       (let current_count = card urls2 in
        if current_count > last_count s then
          finish_pass p
            (s\<lparr>image_urls := urls2, last_count := current_count, scroll_attempts := 0\<rparr>)
            (tr @ [Print (Found current_count)])
        else if scroll_attempts s + 1 \<ge> no_new_images_threshold then
          (Inr (Break, s\<lparr>image_urls := urls2, scroll_attempts := scroll_attempts s + 1\<rparr>),
           tr @ [Print (Stopping no_new_images_threshold)])
        else
          finish_pass p (s\<lparr>image_urls := urls2, scroll_attempts := scroll_attempts s + 1\<rparr>)
            tr))))))"

text \<open>
  The \<^verbatim>\<open>while\<close> loop of line 48. \<open>i\<close> is the number of iterations already done, which
  is also the index of the pass the browser answers next; the result carries the final
  state (or the exception), the events so far and the number of iterations started.
  The loop need not end, so the result is an option: \<open>None\<close> is a run that never leaves
  the loop.
\<close>

partial_function (option) scroll_loop ::
  "(nat \<Rightarrow> scan_pass) \<Rightarrow> nat \<Rightarrow> loop_state \<Rightarrow> event list
     \<Rightarrow> ((error + loop_state) \<times> event list \<times> nat) option" where
  "scroll_loop ps i s tr =
     (if scroll_attempts s < max_scroll_attempts then
        (case pass_body (ps i) s tr of
           (Inl e, tr') \<Rightarrow> Some (Inl e, tr', Suc i)
         | (Inr (Break, s'), tr') \<Rightarrow> Some (Inr s', tr', Suc i)
         | (Inr (Continue, s'), tr') \<Rightarrow> scroll_loop ps (Suc i) s' tr')
      else Some (Inr s, tr, i))"

section \<open>Lines 31 to 115: the run\<close>

definition target_url :: string where
  "target_url = ''https://www.magier.com/ad-examples''"

definition init_state :: loop_state where
  "init_state = \<lparr>image_urls = {}, last_count = 0, scroll_attempts = 0\<rparr>"

text \<open>Lines 102 and 103: \<^verbatim>\<open>for i, url in enumerate(sorted(image_urls), 1)\<close>.\<close>

definition listing :: "string list \<Rightarrow> event list" where
  "listing urls = map (\<lambda>(i, url). Print (Listing i url)) (zip [1..<Suc (length urls)] urls)"

text \<open>
  The \<^verbatim>\<open>try\<close> block, lines 32 to 105. \<^verbatim>\<open>list(image_urls)\<close> enumerates a Python set,
  whose order the language leaves open; the model lists the set in sorted order, and
  nothing below depends on where a URL stands in the list.
\<close>

definition try_block ::
  "browser \<Rightarrow> event list \<Rightarrow> ((error + string list) \<times> event list \<times> nat) option" where
  "try_block b tr =
     (let tr = tr @ [Print (Loading target_url)] in
      case get_page b of
        Inl e \<Rightarrow> Some (Inl e, tr, 0)
      | Inr _ \<Rightarrow>
         (case scroll_loop (passes b) 0 init_state
                 (tr @ [Navigate target_url, Sleep 3, Print Starting]) of
            None \<Rightarrow> None
          | Some (Inl e, tr', n) \<Rightarrow> Some (Inl e, tr', n)
          | Some (Inr s, tr', n) \<Rightarrow>
              Some (Inr (sorted_list_of_set (image_urls s)),
                    tr' @ [Print (Total_found (card (image_urls s)))]
                        @ listing (sorted_list_of_set (image_urls s)),
                    n)))"

datatype outcome = Returned "string list" | SystemExit nat

text \<open>
  The whole function: \<^verbatim>\<open>sys.exit(1)\<close> when no engine starts; otherwise the
  \<^verbatim>\<open>try\<close> block, its \<^verbatim>\<open>except Exception\<close> handler (lines 107 to 111) and the
  \<^verbatim>\<open>finally\<close> clause (lines 113 to 115).
\<close>

definition scrape_avif_images :: "browser \<Rightarrow> (outcome \<times> event list \<times> nat) option" where
  "scrape_avif_images b =
     (case initialize_driver b [Print Initializing] of
        (Inl code, tr) \<Rightarrow> Some (SystemExit code, tr, 0)
      | (Inr driver, tr) \<Rightarrow>
          (case try_block b tr of
             None \<Rightarrow> None
           | Some (Inl e, tr', n) \<Rightarrow>
               Some (Returned [], tr' @ [Print Error_occurred, Print Closing, Quit], n)
           | Some (Inr urls, tr', n) \<Rightarrow>
               Some (Returned urls, tr' @ [Print Closing, Quit], n)))"

text \<open>Lines 117 and 118: the exit status of the process, when it exits.\<close>

definition exit_status :: "browser \<Rightarrow> nat option" where
  "exit_status b =
     (case scrape_avif_images b of
        None \<Rightarrow> None
      | Some (SystemExit code, _, _) \<Rightarrow> Some code
      | Some (Returned _, _, _) \<Rightarrow> Some 0)"

section \<open>Notions used to state the properties\<close>

text \<open>The URLs that the image scan and the style scan of one pass add to the set.\<close>

fun img_urls :: "string option result list \<Rightarrow> string list" where
  "img_urls [] = []"
| "img_urls (Inr (Some src) # imgs) =
     (if src \<noteq> [] \<and> str_in avif src then src # img_urls imgs else img_urls imgs)"
| "img_urls (_ # imgs) = img_urls imgs"

fun style_urls :: "string option result list \<Rightarrow> string list" where
  "style_urls [] = []"
| "style_urls (Inr (Some style) # elems) =
     (if style \<noteq> [] \<and> str_in avif style then findall style @ style_urls elems
      else style_urls elems)"
| "style_urls (_ # elems) = style_urls elems"

definition discovered :: "scan_pass \<Rightarrow> string set" where
  "discovered p =
     (case images p of Inr imgs \<Rightarrow> set (img_urls imgs) | Inl _ \<Rightarrow> {}) \<union>
     (case elements_with_bg p of Inr elems \<Rightarrow> set (style_urls elems) | Inl _ \<Rightarrow> {})"

text \<open>Everything discovered in the first \<open>n\<close> passes.\<close>

primrec seen :: "(nat \<Rightarrow> scan_pass) \<Rightarrow> nat \<Rightarrow> string set" where
  "seen ps 0 = {}"
| "seen ps (Suc n) = seen ps n \<union> discovered (ps n)"

text \<open>A pass in which no driver call raises.\<close>

definition answers :: "scan_pass \<Rightarrow> bool" where
  "answers p =
     (\<not> isl (scroll_to_bottom p) \<and>
      (case images p of Inr imgs \<Rightarrow> list_all (\<lambda>a. \<not> isl a) imgs | Inl _ \<Rightarrow> False) \<and>
      (case elements_with_bg p of Inr elems \<Rightarrow> list_all (\<lambda>a. \<not> isl a) elems | Inl _ \<Rightarrow> False) \<and>
      \<not> isl (scroll_position p) \<and> \<not> isl (page_height p) \<and> \<not> isl (window_height p) \<and>
      \<not> isl (extra_scroll p))"

text \<open>No driver call raises in the first \<open>m\<close> passes.\<close>

definition calm_until :: "(nat \<Rightarrow> scan_pass) \<Rightarrow> nat \<Rightarrow> bool" where
  "calm_until ps m = list_all (\<lambda>i. answers (ps i)) [0..<m]"

text \<open>From pass \<open>K\<close> on (passes are numbered from 0), no pass shows a URL that the first
  \<open>K\<close> passes have not shown: the source has stopped producing new URLs after
  iteration \<open>K\<close>.\<close>

definition quiet_from :: "(nat \<Rightarrow> scan_pass) \<Rightarrow> nat \<Rightarrow> bool" where
  "quiet_from ps K = (\<forall>i\<ge>K. discovered (ps i) \<subseteq> seen ps K)"

text \<open>The test of line 91 on the geometry a pass reports.\<close>

definition at_bottom :: "scan_pass \<Rightarrow> bool" where
  "at_bottom p =
     (case (scroll_position p, page_height p, window_height p) of
        (Inr sp, Inr ph, Inr wh) \<Rightarrow> sp + wh \<ge> ph - 10
      | _ \<Rightarrow> False)"

text \<open>
  A call of the scanning part of a pass raises: the scroll of line 50, one of the two
  \<^verbatim>\<open>find_elements\<close>, or the \<^verbatim>\<open>get_attribute\<close> of one of the elements found.
\<close>

definition scan_raises :: "scan_pass \<Rightarrow> bool" where
  "scan_raises p =
     (isl (scroll_to_bottom p)
      \<or> (case images p of Inl _ \<Rightarrow> True | Inr imgs \<Rightarrow> list_ex isl imgs)
      \<or> (case elements_with_bg p of Inl _ \<Rightarrow> True | Inr elems \<Rightarrow> list_ex isl elems))"

text \<open>
  A call of lines 87 to 94 raises, were they run: one of the three reads of the
  geometry, or the extra scroll when the viewport is at the bottom.
\<close>

definition check_raises :: "scan_pass \<Rightarrow> bool" where
  "check_raises p =
     (isl (scroll_position p) \<or> isl (page_height p) \<or> isl (window_height p)
      \<or> (at_bottom p \<and> isl (extra_scroll p)))"

text \<open>
  The pass \<open>p\<close>, run in state \<open>s\<close> without an exception in its scans, does not
  \<^verbatim>\<open>break\<close>: the set has grown, or the counter stays below the threshold.
\<close>

definition reaches_check :: "loop_state \<Rightarrow> scan_pass \<Rightarrow> bool" where
  "reaches_check s p =
     (last_count s < card (image_urls s \<union> discovered p)
      \<or> scroll_attempts s + 1 < no_new_images_threshold)"

text \<open>
  \<open>loop_head ps tr0 n\<close> is the state and the events at the top of the \<^verbatim>\<open>while\<close> loop
  when it is reached for the time \<open>n + 1\<close>, in the run whose loop starts in \<open>init_state\<close>
  with the events \<open>tr0\<close>; it is \<open>None\<close> when the loop has ended before.
\<close>

primrec loop_head :: "(nat \<Rightarrow> scan_pass) \<Rightarrow> event list \<Rightarrow> nat \<Rightarrow> (loop_state \<times> event list) option" where
  "loop_head ps tr0 0 = Some (init_state, tr0)"
| "loop_head ps tr0 (Suc n) =
     (case loop_head ps tr0 n of
        None \<Rightarrow> None
      | Some (s, tr) \<Rightarrow>
          if scroll_attempts s < max_scroll_attempts then
            (case pass_body (ps n) s tr of
               (Inr (Continue, s'), tr') \<Rightarrow> Some (s', tr')
             | _ \<Rightarrow> None)
          else None)"

text \<open>How a loop that ends has ended: at some head, by an exception, by the
  \<^verbatim>\<open>break\<close>, or by the loop condition.\<close>

definition ends_at ::
  "(nat \<Rightarrow> scan_pass) \<Rightarrow> nat \<Rightarrow> loop_state \<Rightarrow> event list
     \<Rightarrow> (error + loop_state) \<times> event list \<times> nat \<Rightarrow> bool" where
  "ends_at ps n s tr r =
     (if scroll_attempts s < max_scroll_attempts then
        (case pass_body (ps n) s tr of
           (Inl e, tr') \<Rightarrow> r = (Inl e, tr', Suc n)
         | (Inr (Break, s'), tr') \<Rightarrow> r = (Inr s', tr', Suc n)
         | (Inr (Continue, s'), tr') \<Rightarrow> False)
      else r = (Inr s, tr, n))"

text \<open>The events that an iteration of the loop can add.\<close>

fun loop_event :: "event \<Rightarrow> bool" where
  "loop_event Scroll_to_bottom = True"
| "loop_event (Sleep n) = True"
| "loop_event (Print (Found n)) = True"
| "loop_event (Print (Stopping n)) = True"
| "loop_event _ = False"

text \<open>The events of lines 19 to 29, and whether they end with a driver.\<close>

definition driver_start :: "browser \<Rightarrow> event list" where
  "driver_start b = snd (initialize_driver b [Print Initializing])"

definition driver_starts :: "browser \<Rightarrow> bool" where
  "driver_starts b = (\<not> (isl (chrome b) \<and> isl (firefox b)))"

text \<open>The events with which the loop of browser \<open>b\<close> starts, once an engine has started.\<close>

definition loop_start :: "browser \<Rightarrow> event list" where
  "loop_start b =
     snd (initialize_driver b [Print Initializing])
       @ [Print (Loading target_url), Navigate target_url, Sleep 3, Print Starting]"

section \<open>Browsers and pages used as examples\<close>

text \<open>The style string \<^verbatim>\<open>background-image: url("https://x/y.avif?q=1")\<close>.\<close>

definition example_style :: string where
  "example_style = ''background-image: url('' @ [CHR 0x22] @ ''https://x/y.avif?q=1'' @ [CHR 0x22] @ '')''"

text \<open>A pass in which every call answers: the \<^verbatim>\<open>src\<close> attributes of the images and
  the \<^verbatim>\<open>style\<close> attributes of the styled elements are the given ones, and the viewport
  is far from the bottom of the document.\<close>

definition showing :: "string list \<Rightarrow> string list \<Rightarrow> scan_pass" where
  "showing srcs styles =
     \<lparr>scroll_to_bottom = Inr (),
      images = Inr (map (\<lambda>x. Inr (Some x)) srcs),
      elements_with_bg = Inr (map (\<lambda>x. Inr (Some x)) styles),
      scroll_position = Inr 0, page_height = Inr 2000, window_height = Inr 800,
      extra_scroll = Inr ()\<rparr>"

text \<open>The scenario of the specification: two images on the first pass, a third URL
  (in an inline style, next to one that is already known) from the second pass on.
  Chrome does not start, Firefox does.\<close>

definition demo :: browser where
  "demo =
     \<lparr>chrome = Inl WebDriverException, firefox = Inr (), get_page = Inr (),
      passes = (\<lambda>i. if i = 0 then showing [''a.avif'', ''b.avif''] []
                     else showing [''a.avif'', ''b.avif'', ''logo.png'']
                            [''background: url(c.avif)'', ''background: url(a.avif)''])\<rparr>"

text \<open>The events of the run on \<open>demo\<close>, and the loop heads of that run after one and
  after two passes (\<open>demo_head\<close> is the second head of the loop started with no events).\<close>

definition demo_events :: "event list" where
  "demo_events =
     [Print Initializing, Launch Chrome, Print Chrome_not_found, Launch Firefox,
      Print (Loading target_url), Navigate target_url, Sleep 3, Print Starting,
      Scroll_to_bottom, Sleep 2, Print (Found 2),
      Scroll_to_bottom, Sleep 2, Print (Found 3),
      Scroll_to_bottom, Sleep 2,
      Scroll_to_bottom, Sleep 2,
      Scroll_to_bottom, Sleep 2, Print (Stopping 3),
      Print (Total_found 3),
      Print (Listing 1 ''a.avif''), Print (Listing 2 ''b.avif''), Print (Listing 3 ''c.avif''),
      Print Closing, Quit]"

definition demo_first_head :: "loop_state \<times> event list" where
  "demo_first_head =
     (\<lparr>image_urls = {''b.avif'', ''a.avif''}, last_count = 2, scroll_attempts = 0\<rparr>,
      loop_start demo @ [Scroll_to_bottom, Sleep 2, Print (Found 2)])"

definition demo_second_head :: "loop_state \<times> event list" where
  "demo_second_head =
     (\<lparr>image_urls = {''c.avif'', ''b.avif'', ''a.avif''}, last_count = 3, scroll_attempts = 0\<rparr>,
      loop_start demo @ [Scroll_to_bottom, Sleep 2, Print (Found 2),
                         Scroll_to_bottom, Sleep 2, Print (Found 3)])"

definition demo_head :: "loop_state \<times> event list" where
  "demo_head =
     (\<lparr>image_urls = {''c.avif'', ''b.avif'', ''a.avif''}, last_count = 3, scroll_attempts = 0\<rparr>,
      [Scroll_to_bottom, Sleep 2, Print (Found 2), Scroll_to_bottom, Sleep 2, Print (Found 3)])"

text \<open>A browser in which Chrome starts and the page cannot be loaded.\<close>

definition unreachable :: browser where
  "unreachable =
     \<lparr>chrome = Inr (), firefox = Inl WebDriverException, get_page = Inl WebDriverException,
      passes = (\<lambda>i. showing [] [])\<rparr>"

text \<open>A browser whose second pass raises while the \<^verbatim>\<open>src\<close> of its second image is read
  (the element has gone stale), after the first pass has found two URLs.\<close>

definition stale :: browser where
  "stale =
     \<lparr>chrome = Inr (), firefox = Inr (), get_page = Inr (),
      passes = (\<lambda>i. if i = 0 then showing [''a.avif'', ''b.avif''] []
                     else (showing [] [])\<lparr>images := Inr [Inr (Some ''c.avif''), Inl WebDriverException]\<rparr>)\<rparr>"

text \<open>A machine on which neither engine starts.\<close>

definition no_engine :: browser where
  "no_engine =
     \<lparr>chrome = Inl WebDriverException, firefox = Inl WebDriverException, get_page = Inr (),
      passes = (\<lambda>i. showing [] [])\<rparr>"

text \<open>The events of the runs on \<open>unreachable\<close> and on \<open>stale\<close>, and the loop head of the
  latter after its first pass.\<close>

definition unreachable_events :: "event list" where
  "unreachable_events =
     [Print Initializing, Launch Chrome, Print (Loading target_url),
      Print Error_occurred, Print Closing, Quit]"

definition stale_events :: "event list" where
  "stale_events =
     [Print Initializing, Launch Chrome, Print (Loading target_url), Navigate target_url,
      Sleep 3, Print Starting, Scroll_to_bottom, Sleep 2, Print (Found 2),
      Scroll_to_bottom, Sleep 2, Print Error_occurred, Print Closing, Quit]"

definition stale_head :: "loop_state \<times> event list" where
  "stale_head =
     (\<lparr>image_urls = {''b.avif'', ''a.avif''}, last_count = 2, scroll_attempts = 0\<rparr>,
      [Print Initializing, Launch Chrome, Print (Loading target_url), Navigate target_url,
       Sleep 3, Print Starting, Scroll_to_bottom, Sleep 2, Print (Found 2)])"

text \<open>A feed: a page that has one more image to show at every scroll. \<open>fresh i\<close> is
  the \<^verbatim>\<open>src\<close> of its image number \<open>i\<close>. The endless feed never runs out; the long feed
  has 120 images and shows the last one again once it has run out. On both, Chrome
  starts and every call answers.\<close>

definition fresh :: "nat \<Rightarrow> string" where
  "fresh i = replicate (Suc i) (CHR ''x'') @ ''.avif''"

definition endless_feed :: browser where
  "endless_feed =
     \<lparr>chrome = Inr (), firefox = Inr (), get_page = Inr (),
      passes = (\<lambda>i. showing [fresh i] [])\<rparr>"

definition long_feed :: browser where
  "long_feed =
     \<lparr>chrome = Inr (), firefox = Inr (), get_page = Inr (),
      passes = (\<lambda>i. showing [fresh (min i 119)] [])\<rparr>"

text \<open>A page without images whose viewport is at the bottom of the document at every
  pass (1200 + 800 = 2000).\<close>

definition at_the_bottom :: browser where
  "at_the_bottom =
     \<lparr>chrome = Inr (), firefox = Inr (), get_page = Inr (),
      passes = (\<lambda>i. (showing [] [])\<lparr>scroll_position := Inr 1200\<rparr>)\<rparr>"

text \<open>The loop head of \<open>at_the_bottom\<close> after two passes, the loop started with no events.\<close>

definition bottom_head :: "loop_state \<times> event list" where
  "bottom_head =
     (\<lparr>image_urls = {}, last_count = 0, scroll_attempts = 2\<rparr>,
      [Scroll_to_bottom, Sleep 2, Sleep 1, Scroll_to_bottom, Sleep 2,
       Scroll_to_bottom, Sleep 2, Sleep 1, Scroll_to_bottom, Sleep 2])"

text \<open>A source with a gap: nothing on the first five passes, one image on the sixth,
  nothing new afterwards. Chrome starts and every call answers.\<close>

definition gap_feed :: browser where
  "gap_feed =
     \<lparr>chrome = Inr (), firefox = Inr (), get_page = Inr (),
      passes = (\<lambda>i. if i = 5 then showing [''late.avif''] [] else showing [] [])\<rparr>"

text \<open>A pass without images in which the read of \<^verbatim>\<open>window.pageYOffset\<close> would raise.\<close>

definition unmeasurable :: scan_pass where
  "unmeasurable = (showing [] [])\<lparr>scroll_position := Inl WebDriverException\<rparr>"

text \<open>A browser that shows one image and raises when the height of the document is read,
  and one whose first pass raises while the \<^verbatim>\<open>style\<close> of its second styled element is
  read, after the first has given a URL. On both, Chrome starts.\<close>

definition blind :: browser where
  "blind =
     \<lparr>chrome = Inr (), firefox = Inr (), get_page = Inr (),
      passes = (\<lambda>i. (showing [''a.avif''] [])\<lparr>page_height := Inl WebDriverException\<rparr>)\<rparr>"

definition restyled :: browser where
  "restyled =
     \<lparr>chrome = Inr (), firefox = Inr (), get_page = Inr (),
      passes = (\<lambda>i. (showing [] [])\<lparr>elements_with_bg :=
                  Inr [Inr (Some ''background: url(a.avif)''), Inl WebDriverException]\<rparr>)\<rparr>"

declare scroll_loop.simps [code]

declare findall.simps [simp del]

section \<open>Lemmas\<close>

subsection \<open>The pattern\<close>

lemma literal_rest: "(pre, rest) \<in> set (literal l s) \<Longrightarrow> s = pre @ rest \<and> pre = l"
  by (auto simp: literal_def prefix_def split: if_splits)

lemma optional_rest: "(pre, rest) \<in> set (optional cl s) \<Longrightarrow> s = pre @ rest"
  by (cases s) (auto split: if_splits)

lemma star_rest: "(pre, rest) \<in> set (star cl s) \<Longrightarrow> s = pre @ rest"
  by (induction s arbitrary: pre rest) (auto split: if_splits)

lemma plus_rest: "(pre, rest) \<in> set (plus cl s) \<Longrightarrow> s = pre @ rest"
  by (auto simp: plus_def dest: star_rest)

lemma match_here_shape:
  assumes "(g, rest) \<in> set (match_here s)"
  shows "\<exists>q1 a c q2. s = ''url('' @ q1 @ a @ ''.avif'' @ c @ q2 @ '')'' @ rest
           \<and> g = a @ ''.avif'' @ c"
proof -
  from assms obtain u s1 q1 s2 a s3 b s4 c s5 q2 s6 p where
    1: "(u, s1) \<in> set (literal ''url('' s)" and
    2: "(q1, s2) \<in> set (optional is_quote s1)" and
    3: "(a, s3) \<in> set (plus not_quote s2)" and
    4: "(b, s4) \<in> set (literal ''.avif'' s3)" and
    5: "(c, s5) \<in> set (star not_quote s4)" and
    6: "(q2, s6) \<in> set (optional is_quote s5)" and
    7: "(p, rest) \<in> set (literal '')'' s6)" and
    g: "g = a @ b @ c"
    unfolding match_here_def by auto
  have "s = u @ s1" "u = ''url(''" using literal_rest[OF 1] by auto
  moreover have "s1 = q1 @ s2" using optional_rest[OF 2] .
  moreover have "s2 = a @ s3" using plus_rest[OF 3] .
  moreover have "s3 = b @ s4" "b = ''.avif''" using literal_rest[OF 4] by auto
  moreover have "s4 = c @ s5" using star_rest[OF 5] .
  moreover have "s5 = q2 @ s6" using optional_rest[OF 6] .
  moreover have "s6 = p @ rest" "p = '')''" using literal_rest[OF 7] by auto
  ultimately show ?thesis using g by auto
qed

lemma match_here_shorter: "(g, rest) \<in> set (match_here s) \<Longrightarrow> length rest < length s"
  by (drule match_here_shape) auto

lemma str_in_iff: "str_in sub s \<longleftrightarrow> (\<exists>pre post. s = pre @ sub @ post)"
proof (induction s)
  case Nil
  then show ?case by auto
next
  case (Cons c cs)
  show ?case
  proof
    assume "str_in sub (c # cs)"
    then consider "prefix sub (c # cs)" | "str_in sub cs" by auto
    then show "\<exists>pre post. c # cs = pre @ sub @ post"
    proof cases
      case 1
      then obtain post where "c # cs = sub @ post" by (auto simp: prefix_def)
      then have "c # cs = [] @ sub @ post" by simp
      then show ?thesis by blast
    next
      case 2
      with Cons obtain pre post where "cs = pre @ sub @ post" by auto
      then have "c # cs = (c # pre) @ sub @ post" by simp
      then show ?thesis by blast
    qed
  next
    assume "\<exists>pre post. c # cs = pre @ sub @ post"
    then obtain pre post where e: "c # cs = pre @ sub @ post" by auto
    show "str_in sub (c # cs)"
    proof (cases pre)
      case Nil
      with e have "prefix sub (c # cs)" by (auto simp: prefix_def)
      then show ?thesis by simp
    next
      case (Cons d pre')
      with e have "cs = pre' @ sub @ post" by simp
      with Cons.IH have "str_in sub cs" by blast
      then show ?thesis by simp
    qed
  qed
qed

lemma match_here_avif: "(g, rest) \<in> set (match_here s) \<Longrightarrow> str_in avif g \<and> str_in avif s"
proof -
  assume "(g, rest) \<in> set (match_here s)"
  then obtain q1 a c q2 where
    s: "s = ''url('' @ q1 @ a @ ''.avif'' @ c @ q2 @ '')'' @ rest" and g: "g = a @ ''.avif'' @ c"
    using match_here_shape by blast
  have "s = (''url('' @ q1 @ a) @ avif @ (c @ q2 @ '')'' @ rest)" using s by (simp add: avif_def)
  moreover have "g = a @ avif @ c" using g by (simp add: avif_def)
  ultimately show ?thesis unfolding str_in_iff by blast
qed

lemma str_in_suffix: "str_in sub t \<Longrightarrow> str_in sub (pre @ t)"
  unfolding str_in_iff by (metis append.assoc)

lemma findall_avif: "u \<in> set (findall s) \<Longrightarrow> str_in avif u"
proof (induction s rule: findall.induct)
  case (1 s)
  show ?case
  proof (cases "match_here s")
    case Nil
    then have eq: "findall s = (case s of [] \<Rightarrow> [] | _ # cs \<Rightarrow> findall cs)"
      by (simp add: findall.simps[of s])
    show ?thesis
    proof (cases s)
      case Nil
      with eq "1.prems" show ?thesis by simp
    next
      case (Cons c cs)
      with eq "1.prems" have "u \<in> set (findall cs)" by simp
      then show ?thesis using "1.IH"(1)[OF Nil Cons] by simp
    qed
  next
    case (Cons m ms)
    obtain g rest where m: "m = (g, rest)" by (cases m)
    have "(g, rest) \<in> set (match_here s)" using Cons m by simp
    then have g: "str_in avif g" using match_here_avif by blast
    have "findall s = g # findall rest" using Cons m by (simp add: findall.simps[of s])
    with "1.prems" consider "u = g" | "u \<in> set (findall rest)" by auto
    then show ?thesis
    proof cases
      case 1
      with g show ?thesis by simp
    next
      case 2
      then show ?thesis using "1.IH"(2)[OF Cons m[symmetric]] by simp
    qed
  qed
qed

lemma findall_no_avif: "\<not> str_in avif s \<Longrightarrow> findall s = []"
proof (induction s rule: findall.induct)
  case (1 s)
  have Nil: "match_here s = []"
  proof (cases "match_here s")
    case (Cons m ms)
    then have "(fst m, snd m) \<in> set (match_here s)" by simp
    then have "str_in avif s" using match_here_avif by blast
    with "1.prems" show ?thesis by simp
  qed simp
  then have eq: "findall s = (case s of [] \<Rightarrow> [] | _ # cs \<Rightarrow> findall cs)"
    by (simp add: findall.simps[of s])
  show ?case
  proof (cases s)
    case Nil
    with eq show ?thesis by simp
  next
    case (Cons c cs)
    with "1.prems" have "\<not> str_in avif cs" by simp
    then have "findall cs = []" using "1.IH"(1)[OF Nil Cons] by simp
    with eq Cons show ?thesis by simp
  qed
qed

subsection \<open>The scans\<close>

lemma fold_insert_union: "fold insert xs A = A \<union> set xs"
  by (induction xs arbitrary: A) auto

lemma scan_images_result: "scan_images imgs urls = Inr urls' \<Longrightarrow> urls' = urls \<union> set (img_urls imgs)"
  by (induction imgs urls rule: scan_images.induct) (auto split: if_splits)

lemma scan_styles_result: "scan_styles elems urls = Inr urls' \<Longrightarrow> urls' = urls \<union> set (style_urls elems)"
  by (induction elems urls rule: scan_styles.induct) (auto simp: fold_insert_union split: if_splits)

lemma scan_images_answers: "list_all (\<lambda>a. \<not> isl a) imgs \<Longrightarrow> scan_images imgs urls = Inr (urls \<union> set (img_urls imgs))"
  by (induction imgs urls rule: scan_images.induct) auto

lemma scan_styles_answers: "list_all (\<lambda>a. \<not> isl a) elems \<Longrightarrow> scan_styles elems urls = Inr (urls \<union> set (style_urls elems))"
  by (induction elems urls rule: scan_styles.induct) (auto simp: fold_insert_union)

lemma img_urls_avif: "u \<in> set (img_urls imgs) \<Longrightarrow> str_in avif u"
  by (induction imgs rule: img_urls.induct) (auto split: if_splits)

lemma style_urls_avif: "u \<in> set (style_urls elems) \<Longrightarrow> str_in avif u"
  by (induction elems rule: style_urls.induct) (auto split: if_splits dest: findall_avif)

lemma discovered_avif: "u \<in> discovered p \<Longrightarrow> str_in avif u"
  by (auto simp: discovered_def split: sum.splits dest: img_urls_avif style_urls_avif)

lemma finite_discovered: "finite (discovered p)"
  by (auto simp: discovered_def split: sum.splits)

subsection \<open>One pass\<close>

lemma finish_pass_Inr: "finish_pass p s tr = (Inr (fl, s'), tr') \<Longrightarrow> fl = Continue \<and> s' = s"
  by (auto simp: finish_pass_def split: prod.splits sum.splits)

text \<open>What a pass that does not raise does to the state.\<close>

lemma pass_body_state:
  assumes "pass_body p s tr = (Inr (fl, s'), tr')"
  shows "image_urls s' = image_urls s \<union> discovered p"
    and "card (image_urls s') > last_count s \<Longrightarrow>
           fl = Continue \<and> scroll_attempts s' = 0 \<and> last_count s' = card (image_urls s')"
    and "\<not> card (image_urls s') > last_count s \<Longrightarrow>
           scroll_attempts s' = scroll_attempts s + 1 \<and> last_count s' = last_count s
           \<and> (fl = Break \<longleftrightarrow> scroll_attempts s + 1 \<ge> no_new_images_threshold)"
proof -
  from assms obtain u imgs urls1 elems urls2 where
    a: "scroll_to_bottom p = Inr u" "images p = Inr imgs"
       "scan_images imgs (image_urls s) = Inr urls1"
       "elements_with_bg p = Inr elems" "scan_styles elems urls1 = Inr urls2"
    by (auto simp: pass_body_def Let_def split: sum.splits)
  have u2: "urls2 = image_urls s \<union> discovered p"
    using scan_images_result[OF a(3)] scan_styles_result[OF a(5)] a(2,4)
    by (auto simp: discovered_def)
  have *: "image_urls s' = urls2 \<and>
     (card urls2 > last_count s \<longrightarrow> fl = Continue \<and> scroll_attempts s' = 0 \<and> last_count s' = card urls2) \<and>
     (\<not> card urls2 > last_count s \<longrightarrow> scroll_attempts s' = scroll_attempts s + 1 \<and> last_count s' = last_count s
           \<and> (fl = Break \<longleftrightarrow> scroll_attempts s + 1 \<ge> no_new_images_threshold))"
    using assms a
    by (auto simp: pass_body_def Let_def split: if_splits dest!: finish_pass_Inr)
  show "image_urls s' = image_urls s \<union> discovered p" using * u2 by simp
  show "card (image_urls s') > last_count s \<Longrightarrow>
           fl = Continue \<and> scroll_attempts s' = 0 \<and> last_count s' = card (image_urls s')"
    using * by simp
  show "\<not> card (image_urls s') > last_count s \<Longrightarrow>
           scroll_attempts s' = scroll_attempts s + 1 \<and> last_count s' = last_count s
           \<and> (fl = Break \<longleftrightarrow> scroll_attempts s + 1 \<ge> no_new_images_threshold)"
    using * by simp
qed

subsection \<open>The loop and its heads\<close>

lemma loop_head_unfold:
  "loop_head ps tr0 n = Some (s, tr) \<Longrightarrow> scroll_loop ps 0 init_state tr0 = scroll_loop ps n s tr"
proof (induction n arbitrary: s tr)
  case 0
  then show ?case by simp
next
  case (Suc n)
  from Suc.prems obtain s0 tr1 where
    h: "loop_head ps tr0 n = Some (s0, tr1)" and
    c: "scroll_attempts s0 < max_scroll_attempts" and
    p: "pass_body (ps n) s0 tr1 = (Inr (Continue, s), tr)"
    by (auto split: option.splits if_splits prod.splits sum.splits flow.splits)
  have "scroll_loop ps 0 init_state tr0 = scroll_loop ps n s0 tr1" using Suc.IH[OF h] .
  also have "\<dots> = scroll_loop ps (Suc n) s tr"
    using c p by (subst scroll_loop.simps) simp
  finally show ?case .
qed

lemma scroll_loop_ends_gen:
  assumes "scroll_loop ps i s tr = Some r"
  shows "\<forall>tr0. loop_head ps tr0 i = Some (s, tr) \<longrightarrow>
     (\<exists>n s' tr'. loop_head ps tr0 n = Some (s', tr') \<and> ends_at ps n s' tr' r)"
proof (rule scroll_loop.raw_induct[OF _ assms], goal_cases)
  case (1 scroll_loop ps i s tr r)
  note IH = 1(1) and eq = 1(2)
  show ?case
  proof (intro allI impI)
    fix tr0
    assume h: "loop_head ps tr0 i = Some (s, tr)"
    show "\<exists>n s' tr'. loop_head ps tr0 n = Some (s', tr') \<and> ends_at ps n s' tr' r"
    proof (cases "scroll_attempts s < max_scroll_attempts")
      case False
      with eq have "ends_at ps i s tr r" by (auto simp: ends_at_def)
      with h show ?thesis by blast
    next
      case True
      obtain x tr' where pb: "pass_body (ps i) s tr = (x, tr')" by (cases "pass_body (ps i) s tr")
      show ?thesis
      proof (cases x)
        case (Inl e)
        with eq True pb have "ends_at ps i s tr r" by (auto simp: ends_at_def)
        with h show ?thesis by blast
      next
        case (Inr y)
        obtain fl s' where y: "y = (fl, s')" by (cases y)
        show ?thesis
        proof (cases fl)
          case Break
          with eq True pb Inr y have "ends_at ps i s tr r" by (auto simp: ends_at_def)
          with h show ?thesis by blast
        next
          case Continue
          with eq True pb Inr y have rec: "scroll_loop ps (Suc i) s' tr' = Some r" by simp
          have "loop_head ps tr0 (Suc i) = Some (s', tr')"
            using h True pb Inr y Continue by simp
          with IH[OF rec] show ?thesis by blast
        qed
      qed
    qed
  qed
qed

lemma scroll_loop_ends:
  "scroll_loop ps 0 init_state tr0 = Some r \<Longrightarrow>
     \<exists>n s tr. loop_head ps tr0 n = Some (s, tr) \<and> ends_at ps n s tr r"
  using scroll_loop_ends_gen[of ps 0 init_state tr0 r] by simp

lemma ends_at_scroll_loop:
  "loop_head ps tr0 n = Some (s, tr) \<Longrightarrow> ends_at ps n s tr r \<Longrightarrow>
     scroll_loop ps 0 init_state tr0 = Some r"
  by (simp add: loop_head_unfold scroll_loop.simps[of ps n s tr] ends_at_def
           split: if_splits prod.splits sum.splits flow.splits)

lemma finite_seen: "finite (seen ps n)"
  by (induction n) (auto simp: finite_discovered)

lemma seen_mono: "m \<le> n \<Longrightarrow> seen ps m \<subseteq> seen ps n"
  by (induction n) (auto simp: le_Suc_eq)

lemma loop_head_Suc:
  "loop_head ps tr0 (Suc n) = Some (s', tr') \<Longrightarrow>
     \<exists>s tr. loop_head ps tr0 n = Some (s, tr) \<and> scroll_attempts s < max_scroll_attempts
        \<and> pass_body (ps n) s tr = (Inr (Continue, s'), tr')"
  by (auto split: option.splits if_splits prod.splits sum.splits flow.splits)

lemma loop_head_inv:
  "loop_head ps tr0 n = Some (s, tr) \<Longrightarrow>
     image_urls s = seen ps n \<and> last_count s = card (seen ps n)
     \<and> scroll_attempts s < no_new_images_threshold"
proof (induction n arbitrary: s tr)
  case 0
  then show ?case by (auto simp: init_state_def no_new_images_threshold_def)
next
  case (Suc n)
  from loop_head_Suc[OF Suc.prems] obtain s0 tr1 where
    h: "loop_head ps tr0 n = Some (s0, tr1)" and
    p: "pass_body (ps n) s0 tr1 = (Inr (Continue, s), tr)" by blast
  note inv = Suc.IH[OF h]
  have u: "image_urls s = seen ps (Suc n)" using pass_body_state(1)[OF p] inv by simp
  show ?case
  proof (cases "card (image_urls s) > last_count s0")
    case True
    from pass_body_state(2)[OF p True] u show ?thesis
      by (simp add: no_new_images_threshold_def)
  next
    case False
    from pass_body_state(3)[OF p False]
    have a: "scroll_attempts s = scroll_attempts s0 + 1" "last_count s = last_count s0"
      "\<not> scroll_attempts s0 + 1 \<ge> no_new_images_threshold" by auto
    have "card (seen ps (Suc n)) \<le> card (seen ps n)" using False u inv by simp
    moreover have "card (seen ps n) \<le> card (seen ps (Suc n))"
      by (rule card_mono[OF finite_seen]) auto
    ultimately have "card (seen ps (Suc n)) = card (seen ps n)" by simp
    with a u inv show ?thesis by simp
  qed
qed

lemma loop_head_None_mono: "loop_head ps tr0 m = None \<Longrightarrow> m \<le> n \<Longrightarrow> loop_head ps tr0 n = None"
  by (induction n) (auto simp: le_Suc_eq)

text \<open>The loop never ends through its condition: the counter stays below the threshold.\<close>

lemma ends_at_Suc:
  assumes "loop_head ps tr0 n = Some (s, tr)" "ends_at ps n s tr (x, tr', m)"
  shows "m = Suc n \<and> loop_head ps tr0 (Suc n) = None
         \<and> pass_body (ps n) s tr = (case x of Inl e \<Rightarrow> (Inl e, tr') | Inr s' \<Rightarrow> (Inr (Break, s'), tr'))"
proof -
  have "scroll_attempts s < max_scroll_attempts"
    using loop_head_inv[OF assms(1)]
    by (simp add: no_new_images_threshold_def max_scroll_attempts_def)
  then show ?thesis using assms
    by (auto simp: ends_at_def split: prod.splits sum.splits flow.splits)
qed

lemma last_head:
  assumes "loop_head ps tr0 n = Some (s, tr)" "loop_head ps tr0 (Suc n) = None"
  shows "\<exists>x tr'. scroll_loop ps 0 init_state tr0 = Some (x, tr', Suc n)
           \<and> pass_body (ps n) s tr = (case x of Inl e \<Rightarrow> (Inl e, tr') | Inr s' \<Rightarrow> (Inr (Break, s'), tr'))"
proof -
  have c: "scroll_attempts s < max_scroll_attempts"
    using loop_head_inv[OF assms(1)]
    by (simp add: no_new_images_threshold_def max_scroll_attempts_def)
  obtain y tr' where pb: "pass_body (ps n) s tr = (y, tr')" by (cases "pass_body (ps n) s tr")
  define x where "x = (case y of Inl e \<Rightarrow> Inl e | Inr (fl, s') \<Rightarrow> Inr s')"
  have nc: "\<forall>s'. y \<noteq> Inr (Continue, s')" using assms c pb by auto
  then have y: "y = (case x of Inl e \<Rightarrow> Inl e | Inr s' \<Rightarrow> Inr (Break, s'))"
    unfolding x_def by (auto split: sum.splits flow.splits) (metis flow.exhaust)
  have "ends_at ps n s tr (x, tr', Suc n)"
    using c pb nc by (auto simp: ends_at_def x_def split: sum.splits flow.splits)
  from ends_at_scroll_loop[OF assms(1) this] pb y show ?thesis
    by (auto split: sum.splits)
qed

subsection \<open>Halting\<close>

lemma quiet_counter:
  assumes quiet: "\<forall>i\<ge>K. discovered (ps i) \<subseteq> seen ps K"
  shows "loop_head ps tr0 (K + j) = Some (s, tr) \<Longrightarrow> j \<le> scroll_attempts s"
proof (induction j arbitrary: s tr)
  case 0
  then show ?case by simp
next
  case (Suc j)
  from Suc.prems have "loop_head ps tr0 (Suc (K + j)) = Some (s, tr)" by simp
  from loop_head_Suc[OF this] obtain s0 tr1 where
    h: "loop_head ps tr0 (K + j) = Some (s0, tr1)" and
    p: "pass_body (ps (K + j)) s0 tr1 = (Inr (Continue, s), tr)" by blast
  have "discovered (ps (K + j)) \<subseteq> seen ps K" using quiet by simp
  then have "discovered (ps (K + j)) \<subseteq> seen ps (K + j)"
    using seen_mono[of K "K + j" ps] by simp
  then have "image_urls s = image_urls s0"
    using pass_body_state(1)[OF p] loop_head_inv[OF h] by auto
  then have "\<not> card (image_urls s) > last_count s0" using loop_head_inv[OF h] by simp
  from pass_body_state(3)[OF p this] Suc.IH[OF h] show ?case by simp
qed

lemma first_None:
  assumes "loop_head ps tr0 m = None"
  shows "\<exists>n s tr. n < m \<and> loop_head ps tr0 n = Some (s, tr) \<and> loop_head ps tr0 (Suc n) = None"
  using assms
proof (induction m)
  case 0
  then show ?case by simp
next
  case (Suc m)
  show ?case
  proof (cases "loop_head ps tr0 m")
    case None
    with Suc.IH show ?thesis by (meson less_Suc_eq)
  next
    case (Some a)
    then show ?thesis using Suc.prems by (cases a) blast
  qed
qed

lemma quiet_halts:
  assumes quiet: "\<forall>i\<ge>K. discovered (ps i) \<subseteq> seen ps K"
  shows "\<exists>x tr n. scroll_loop ps 0 init_state tr0 = Some (x, tr, n) \<and> n \<le> K + 3"
proof -
  have "loop_head ps tr0 (K + 3) = None"
  proof (cases "loop_head ps tr0 (K + 3)")
    case (Some a)
    obtain s tr where "a = (s, tr)" by (cases a)
    with Some quiet_counter[OF quiet, of tr0 3 s tr] loop_head_inv[of ps tr0 "K + 3" s tr]
    show ?thesis by (simp add: no_new_images_threshold_def)
  qed simp
  from first_None[OF this] obtain n s tr where
    n: "n < K + 3" "loop_head ps tr0 n = Some (s, tr)" "loop_head ps tr0 (Suc n) = None" by blast
  from last_head[OF n(2,3)] n(1) show ?thesis by (metis Suc_leI)
qed

text \<open>A pass in which every call answers goes on or breaks; it does not raise.\<close>

lemma not_isl: "\<not> isl x \<Longrightarrow> \<exists>y. x = Inr y"
  by (cases x) auto

lemma answers_pass:
  assumes "answers p"
  shows "\<exists>fl s' tr'. pass_body p s tr = (Inr (fl, s'), tr')"
proof -
  from assms obtain u where a1: "scroll_to_bottom p = Inr u"
    unfolding answers_def using not_isl by blast
  from assms obtain imgs where a2: "images p = Inr imgs" "list_all (\<lambda>a. \<not> isl a) imgs"
    unfolding answers_def by (cases "images p") auto
  from assms obtain elems where
    a3: "elements_with_bg p = Inr elems" "list_all (\<lambda>a. \<not> isl a) elems"
    unfolding answers_def by (cases "elements_with_bg p") auto
  from assms obtain sp where a4: "scroll_position p = Inr sp"
    unfolding answers_def using not_isl by blast
  from assms obtain ph where a5: "page_height p = Inr ph"
    unfolding answers_def using not_isl by blast
  from assms obtain wh where a6: "window_height p = Inr wh"
    unfolding answers_def using not_isl by blast
  from assms obtain u2 where a7: "extra_scroll p = Inr u2"
    unfolding answers_def using not_isl by blast
  have b: "\<exists>tr'. bottom_check p t = (Inr (), tr')" for t
    by (simp add: bottom_check_def a4 a5 a6 a7)
  have f: "\<exists>tr'. finish_pass p s1 t = (Inr (Continue, s1), tr')" for s1 t
    using b[of t] by (auto simp: finish_pass_def)
  have f2: "\<exists>fl s' tr'. finish_pass p s1 t = (Inr (fl, s'), tr')" for s1 t
    using f[of s1 t] by blast
  show ?thesis
    unfolding pass_body_def Let_def
    by (simp add: a1 a2 a3 scan_images_answers[OF a2(2)] scan_styles_answers[OF a3(2)] f2)
qed

subsection \<open>Events\<close>

lemma bottom_check_events: "bottom_check p tr = (r, tr') \<Longrightarrow>
   \<exists>ext. tr' = tr @ ext \<and> list_all loop_event ext"
  by (auto simp: bottom_check_def split: sum.splits if_splits)

lemma finish_pass_events: "finish_pass p s tr = (r, tr') \<Longrightarrow>
   \<exists>ext. tr' = tr @ ext \<and> list_all loop_event ext"
  by (auto simp: finish_pass_def split: prod.splits sum.splits dest: bottom_check_events)

lemma pass_body_cases:
  assumes "pass_body p s tr = (r, tr')"
  shows "(\<exists>e. r = Inl e \<and> tr' = tr)
       \<or> (\<exists>e. r = Inl e \<and> tr' = tr @ [Scroll_to_bottom, Sleep 2])
       \<or> (\<exists>s1 n. finish_pass p s1 (tr @ [Scroll_to_bottom, Sleep 2, Print (Found n)]) = (r, tr'))
       \<or> (\<exists>s1. r = Inr (Break, s1)
             \<and> tr' = tr @ [Scroll_to_bottom, Sleep 2, Print (Stopping no_new_images_threshold)])
       \<or> (\<exists>s1. finish_pass p s1 (tr @ [Scroll_to_bottom, Sleep 2]) = (r, tr'))"
  using assms unfolding pass_body_def Let_def
  by (auto split: sum.splits if_splits)

lemma pass_body_events:
  assumes "pass_body p s tr = (r, tr')"
  shows "\<exists>ext. tr' = tr @ ext \<and> list_all loop_event ext"
proof -
  have f: "\<exists>ext. tr' = tr @ ext \<and> list_all loop_event ext"
    if "finish_pass p s1 (tr @ pre) = (r, tr')" "list_all loop_event pre" for s1 pre
  proof -
    from finish_pass_events[OF that(1)] obtain ext where
      "tr' = (tr @ pre) @ ext" "list_all loop_event ext" by blast
    then have "tr' = tr @ (pre @ ext) \<and> list_all loop_event (pre @ ext)" using that(2) by simp
    then show ?thesis by blast
  qed
  from pass_body_cases[OF assms] consider
      "tr' = tr" | "tr' = tr @ [Scroll_to_bottom, Sleep 2]"
    | s1 n where "finish_pass p s1 (tr @ [Scroll_to_bottom, Sleep 2, Print (Found n)]) = (r, tr')"
    | "tr' = tr @ [Scroll_to_bottom, Sleep 2, Print (Stopping no_new_images_threshold)]"
    | s1 where "finish_pass p s1 (tr @ [Scroll_to_bottom, Sleep 2]) = (r, tr')"
    by blast
  then show ?thesis
  proof cases
    case 1
    then have "tr' = tr @ [] \<and> list_all loop_event []" by simp
    then show ?thesis by blast
  next
    case 2
    then have "tr' = tr @ [Scroll_to_bottom, Sleep 2] \<and> list_all loop_event [Scroll_to_bottom, Sleep 2]"
      by simp
    then show ?thesis by blast
  next
    case 3
    then show ?thesis using f[of s1 "[Scroll_to_bottom, Sleep 2, Print (Found n)]"] by simp
  next
    case 4
    then have "list_all loop_event [Scroll_to_bottom, Sleep 2, Print (Stopping no_new_images_threshold)]"
      by simp
    with 4 show ?thesis by blast
  next
    case 5
    then show ?thesis using f[of s1 "[Scroll_to_bottom, Sleep 2]"] by simp
  qed
qed

lemma loop_head_events:
  "loop_head ps tr0 n = Some (s, tr) \<Longrightarrow> \<exists>ext. tr = tr0 @ ext \<and> list_all loop_event ext"
proof (induction n arbitrary: s tr)
  case 0
  then show ?case by simp
next
  case (Suc n)
  from loop_head_Suc[OF Suc.prems] obtain s0 tr1 where
    h: "loop_head ps tr0 n = Some (s0, tr1)" and
    p: "pass_body (ps n) s0 tr1 = (Inr (Continue, s), tr)" by blast
  from Suc.IH[OF h] obtain e1 where e1: "tr1 = tr0 @ e1" "list_all loop_event e1" by blast
  from pass_body_events[OF p] obtain e2 where e2: "tr = tr1 @ e2" "list_all loop_event e2" by blast
  have "tr = tr0 @ (e1 @ e2) \<and> list_all loop_event (e1 @ e2)" using e1 e2 by simp
  then show ?case by blast
qed

text \<open>Every loop that ends has ended in the pass after its last head; the state it
  returns holds what the passes run have shown.\<close>

lemma scroll_loop_result:
  assumes "scroll_loop ps 0 init_state tr0 = Some (x, tr, n)"
  shows "\<exists>k s0 tr1 ext. n = Suc k \<and> loop_head ps tr0 k = Some (s0, tr1)
           \<and> loop_head ps tr0 n = None
           \<and> pass_body (ps k) s0 tr1 = (case x of Inl e \<Rightarrow> (Inl e, tr) | Inr s' \<Rightarrow> (Inr (Break, s'), tr))
           \<and> tr = tr0 @ ext \<and> list_all loop_event ext
           \<and> (\<forall>s'. x = Inr s' \<longrightarrow> image_urls s' = seen ps n)"
proof -
  from scroll_loop_ends[OF assms] obtain k s0 tr1 where
    h: "loop_head ps tr0 k = Some (s0, tr1)" and e: "ends_at ps k s0 tr1 (x, tr, n)" by blast
  from ends_at_Suc[OF h e] have
    n: "n = Suc k" and hn: "loop_head ps tr0 (Suc k) = None" and
    pb: "pass_body (ps k) s0 tr1 = (case x of Inl e \<Rightarrow> (Inl e, tr) | Inr s' \<Rightarrow> (Inr (Break, s'), tr))"
    by auto
  from loop_head_events[OF h] obtain e1 where e1: "tr1 = tr0 @ e1" "list_all loop_event e1" by blast
  obtain y where y: "pass_body (ps k) s0 tr1 = (y, tr)" using pb by (cases x) auto
  from pass_body_events[OF y] obtain e2 where e2: "tr = tr1 @ e2" "list_all loop_event e2" by blast
  have ev: "tr = tr0 @ (e1 @ e2) \<and> list_all loop_event (e1 @ e2)" using e1 e2 by simp
  have "image_urls s' = seen ps n" if "x = Inr s'" for s'
  proof -
    from pb that have "pass_body (ps k) s0 tr1 = (Inr (Break, s'), tr)" by simp
    from pass_body_state(1)[OF this] loop_head_inv[OF h] n show ?thesis by simp
  qed
  with n h hn pb ev show ?thesis by blast
qed


subsection \<open>The run\<close>

lemma loop_start_eq:
  "loop_start b = driver_start b @ [Print (Loading target_url), Navigate target_url, Sleep 3, Print Starting]"
  by (simp add: loop_start_def driver_start_def)

lemma scrape_no_driver:
  "\<not> driver_starts b \<Longrightarrow>
     scrape_avif_images b = Some (SystemExit 1, driver_start b, 0)
     \<and> driver_start b = [Print Initializing, Launch Chrome, Print Chrome_not_found,
                          Launch Firefox, Print No_driver]"
  by (auto simp: driver_starts_def scrape_avif_images_def initialize_driver_def driver_start_def
           split: sum.splits)

lemma driver_starts_init:
  "driver_starts b \<Longrightarrow>
     initialize_driver b tr = (Inr (if isl (chrome b) then Firefox else Chrome),
        tr @ (if isl (chrome b) then [Launch Chrome, Print Chrome_not_found, Launch Firefox]
              else [Launch Chrome]))"
  by (auto simp: driver_starts_def initialize_driver_def split: sum.splits)

lemma scrape_started:
  assumes "driver_starts b"
  shows "scrape_avif_images b =
    (case get_page b of
       Inl e \<Rightarrow> Some (Returned [],
                  driver_start b @ [Print (Loading target_url), Print Error_occurred, Print Closing, Quit], 0)
     | Inr _ \<Rightarrow>
        (case scroll_loop (passes b) 0 init_state (loop_start b) of
           None \<Rightarrow> None
         | Some (Inl e, tr, n) \<Rightarrow>
             Some (Returned [], tr @ [Print Error_occurred, Print Closing, Quit], n)
         | Some (Inr s, tr, n) \<Rightarrow>
             Some (Returned (sorted_list_of_set (image_urls s)),
                   tr @ [Print (Total_found (card (image_urls s)))]
                      @ listing (sorted_list_of_set (image_urls s)) @ [Print Closing, Quit], n)))"
  unfolding scrape_avif_images_def try_block_def Let_def loop_start_def driver_start_def
    driver_starts_init[OF assms]
  by (simp split: sum.splits option.splits prod.splits)

lemma seen_avif: "u \<in> seen ps n \<Longrightarrow> str_in avif u"
  by (induction n) (auto dest: discovered_avif)

lemma listing_mem: "Print (Listing i u) \<in> set (listing xs) \<Longrightarrow> u \<in> set xs"
  by (auto simp: listing_def dest: set_zip_rightD)

lemma driver_start_events:
  "e \<in> set (driver_start b) \<Longrightarrow>
     e \<in> {Print Initializing, Launch Chrome, Print Chrome_not_found, Launch Firefox, Print No_driver}"
  by (auto simp: driver_start_def initialize_driver_def split: sum.splits)

lemma loop_event_mem: "list_all loop_event ext \<Longrightarrow> e \<in> set ext \<Longrightarrow> loop_event e"
  by (simp add: list_all_iff)

subsection \<open>Counting\<close>

lemma distinct_count: "distinct xs \<Longrightarrow> count_list xs x = (if x \<in> set xs then 1 else 0)"
  by (induction xs) auto

lemma loop_events_no_quit: "list_all loop_event ext \<Longrightarrow> count_list ext Quit = 0"
  by (induction ext) auto

lemma listing_no_quit: "count_list (listing xs) Quit = 0"
  by (auto simp: count_list_0_iff listing_def)

lemma driver_start_no_quit: "count_list (driver_start b) Quit = 0"
  by (auto simp: count_list_0_iff dest: driver_start_events)

lemma loop_start_no_quit: "count_list (loop_start b) Quit = 0"
  by (simp add: loop_start_eq driver_start_no_quit)

subsection \<open>Passes that only answer\<close>

lemma discovered_showing:
  "discovered (showing srcs styles)
     = {x \<in> set srcs. x \<noteq> [] \<and> str_in avif x}
       \<union> (\<Union>st \<in> {x \<in> set styles. x \<noteq> [] \<and> str_in avif x}. set (findall st))"
proof -
  have 1: "set (img_urls (map (\<lambda>x. Inr (Some x)) srcs)) = {x \<in> set srcs. x \<noteq> [] \<and> str_in avif x}"
    by (induction srcs) auto
  have 2: "set (style_urls (map (\<lambda>x. Inr (Some x)) styles))
       = (\<Union>st \<in> {x \<in> set styles. x \<noteq> [] \<and> str_in avif x}. set (findall st))"
    by (induction styles) auto
  show ?thesis by (simp add: discovered_def showing_def 1 2)
qed

lemma answers_showing: "answers (showing srcs styles)"
  by (simp add: answers_def showing_def list_all_iff)

lemma demo_quiet: "quiet_from (passes demo) 2"
proof -
  have "discovered (passes demo i) \<subseteq> seen (passes demo) 2" if "2 \<le> i" for i
  proof -
    have "passes demo i = passes demo 1" using that by (simp add: demo_def)
    moreover have "discovered (passes demo 1) \<subseteq> seen (passes demo) 2"
      by (simp add: numeral_2_eq_2)
    ultimately show ?thesis by simp
  qed
  then show ?thesis by (simp add: quiet_from_def)
qed

subsection \<open>Growth and no growth\<close>

lemma loop_head_step:
  assumes "loop_head ps tr0 m = Some (s, tr)" "pass_body (ps m) s tr = (Inr (Continue, s'), tr')"
  shows "loop_head ps tr0 (Suc m) = Some (s', tr')"
proof -
  have "scroll_attempts s < max_scroll_attempts"
    using loop_head_inv[OF assms(1)]
    by (simp add: no_new_images_threshold_def max_scroll_attempts_def)
  with assms show ?thesis by simp
qed

lemma seen_quiet: "quiet_from ps K \<Longrightarrow> seen ps (K + j) = seen ps K"
proof (induction j)
  case 0
  then show ?case by simp
next
  case (Suc j)
  then have "discovered (ps (K + j)) \<subseteq> seen ps K" by (simp add: quiet_from_def)
  with Suc show ?case by auto
qed

text \<open>At a loop head, a pass that answers and shows nothing new counts one more
  fruitless scroll, and breaks exactly when that makes three.\<close>

lemma quiet_pass:
  assumes h: "loop_head ps tr0 m = Some (s, tr)"
    and a: "answers (ps m)" and q: "discovered (ps m) \<subseteq> seen ps m"
  shows "\<exists>fl s' tr'. pass_body (ps m) s tr = (Inr (fl, s'), tr')
           \<and> image_urls s' = image_urls s
           \<and> scroll_attempts s' = scroll_attempts s + 1
           \<and> (fl = Break \<longleftrightarrow> scroll_attempts s + 1 \<ge> no_new_images_threshold)"
proof -
  from answers_pass[OF a] obtain fl s' tr' where
    pb: "pass_body (ps m) s tr = (Inr (fl, s'), tr')" by blast
  note inv = loop_head_inv[OF h]
  have u: "image_urls s' = image_urls s" using pass_body_state(1)[OF pb] inv q by auto
  then have "\<not> card (image_urls s') > last_count s" using inv by simp
  from pass_body_state(3)[OF pb this] pb u show ?thesis by simp
qed

text \<open>At a loop head, a pass that answers and shows something new goes on, with the
  counter back at zero.\<close>

lemma growing_pass:
  assumes h: "loop_head ps tr0 m = Some (s, tr)"
    and a: "answers (ps m)" and g: "\<not> discovered (ps m) \<subseteq> seen ps m"
  shows "\<exists>s' tr'. pass_body (ps m) s tr = (Inr (Continue, s'), tr') \<and> scroll_attempts s' = 0"
proof -
  from answers_pass[OF a] obtain fl s' tr' where
    pb: "pass_body (ps m) s tr = (Inr (fl, s'), tr')" by blast
  note inv = loop_head_inv[OF h]
  have u: "image_urls s' = seen ps m \<union> discovered (ps m)"
    using pass_body_state(1)[OF pb] inv by simp
  have "seen ps m \<subset> seen ps m \<union> discovered (ps m)" using g by auto
  then have "card (seen ps m) < card (seen ps m \<union> discovered (ps m))"
    by (intro psubset_card_mono) (simp_all add: finite_seen finite_discovered)
  then have "card (image_urls s') > last_count s" using u inv by simp
  from pass_body_state(2)[OF pb this] pb show ?thesis by simp
qed

lemma three_quiet_passes:
  assumes h: "loop_head ps tr0 K = Some (s, tr)" and z: "scroll_attempts s = 0"
    and q: "quiet_from ps K"
    and a: "answers (ps K)" "answers (ps (Suc K))" "answers (ps (Suc (Suc K)))"
  shows "\<exists>s' tr'. scroll_loop ps 0 init_state tr0 = Some (Inr s', tr', K + 3)
            \<and> image_urls s' = seen ps K"
proof -
  have qq: "discovered (ps (K + j)) \<subseteq> seen ps (K + j)" for j
    using q seen_quiet[OF q, of j] by (simp add: quiet_from_def)
  note inv = loop_head_inv[OF h]
  from quiet_pass[OF h a(1)] qq[of 0] z obtain s1 tr1 where
    p1: "pass_body (ps K) s tr = (Inr (Continue, s1), tr1)" and
    c1: "scroll_attempts s1 = 1" and u1: "image_urls s1 = image_urls s"
    by (auto simp: no_new_images_threshold_def) (metis flow.exhaust)
  note h1 = loop_head_step[OF h p1]
  from quiet_pass[OF h1 a(2)] qq[of 1] c1 obtain s2 tr2 where
    p2: "pass_body (ps (Suc K)) s1 tr1 = (Inr (Continue, s2), tr2)" and
    c2: "scroll_attempts s2 = 2" and u2: "image_urls s2 = image_urls s1"
    by (auto simp: no_new_images_threshold_def) (metis flow.exhaust)
  note h2 = loop_head_step[OF h1 p2]
  from quiet_pass[OF h2 a(3)] qq[of 2] c2 obtain s3 tr3 where
    p3: "pass_body (ps (Suc (Suc K))) s2 tr2 = (Inr (Break, s3), tr3)" and
    u3: "image_urls s3 = image_urls s2"
    by (auto simp: no_new_images_threshold_def numeral_2_eq_2)
  have "scroll_attempts s2 < max_scroll_attempts" using c2 by (simp add: max_scroll_attempts_def)
  then have "ends_at ps (Suc (Suc K)) s2 tr2 (Inr s3, tr3, Suc (Suc (Suc K)))"
    using p3 by (simp add: ends_at_def)
  from ends_at_scroll_loop[OF h2 this] u1 u2 u3 inv show ?thesis
    by (simp add: numeral_3_eq_3)
qed

lemma loop_head_defined_below:
  "loop_head ps tr0 n = Some c \<Longrightarrow> m \<le> n \<Longrightarrow> \<exists>c'. loop_head ps tr0 m = Some c'"
  using loop_head_None_mono[of ps tr0 m n] by (cases "loop_head ps tr0 m") auto

lemma calm_untilD: "calm_until ps m \<Longrightarrow> i < m \<Longrightarrow> answers (ps i)"
  by (simp add: calm_until_def list_all_iff)


lemma growing_heads:
  "(\<forall>i<K. answers (ps i) \<and> \<not> discovered (ps i) \<subseteq> seen ps i) \<Longrightarrow>
     \<exists>s tr. loop_head ps tr0 K = Some (s, tr) \<and> scroll_attempts s = 0"
proof (induction K)
  case 0
  then show ?case by (simp add: init_state_def)
next
  case (Suc K)
  then obtain s tr where h: "loop_head ps tr0 K = Some (s, tr)" by auto
  from Suc.prems have "answers (ps K)" "\<not> discovered (ps K) \<subseteq> seen ps K" by auto
  from growing_pass[OF h this] obtain s' tr' where
    p: "pass_body (ps K) s tr = (Inr (Continue, s'), tr')" and z: "scroll_attempts s' = 0"
    by blast
  from loop_head_step[OF h p] z show ?case by simp
qed

lemma always_growing:
  assumes "\<forall>i. answers (ps i) \<and> \<not> discovered (ps i) \<subseteq> seen ps i"
  shows "scroll_loop ps 0 init_state tr0 = None"
proof (cases "scroll_loop ps 0 init_state tr0")
  case (Some r)
  obtain x tr n where "r = (x, tr, n)" by (cases r)
  with Some scroll_loop_result[of ps tr0 x tr n] have "loop_head ps tr0 n = None" by auto
  moreover from growing_heads[of n ps tr0] assms have "loop_head ps tr0 n \<noteq> None" by auto
  ultimately show ?thesis by simp
qed simp

subsection \<open>The feeds\<close>

lemma fresh_inj: "fresh i = fresh j \<Longrightarrow> i = j"
proof -
  assume "fresh i = fresh j"
  then have "length (fresh i) = length (fresh j)" by simp
  then show ?thesis by (simp add: fresh_def)
qed

lemma discovered_fresh: "discovered (showing [fresh i] []) = {fresh i}"
proof -
  have "fresh i = replicate (Suc i) (CHR ''x'') @ avif @ []" by (simp add: fresh_def avif_def)
  then have "str_in avif (fresh i)" unfolding str_in_iff by blast
  moreover have "fresh i \<noteq> []" by (simp add: fresh_def)
  ultimately show ?thesis by (auto simp: discovered_showing)
qed

lemma seen_endless: "seen (passes endless_feed) n = fresh ` {..<n}"
  by (induction n) (auto simp: endless_feed_def discovered_fresh lessThan_Suc)

lemma seen_long: "n \<le> 120 \<Longrightarrow> seen (passes long_feed) n = fresh ` {..<n}"
  by (induction n) (auto simp: long_feed_def discovered_fresh lessThan_Suc)

lemma endless_grows:
  "answers (passes endless_feed i) \<and> \<not> discovered (passes endless_feed i) \<subseteq> seen (passes endless_feed) i"
proof -
  have "fresh i \<notin> fresh ` {..<i}" using fresh_inj by fastforce
  then have "\<not> discovered (passes endless_feed i) \<subseteq> seen (passes endless_feed) i"
    unfolding seen_endless by (simp add: endless_feed_def discovered_fresh)
  moreover have "answers (passes endless_feed i)" by (simp add: endless_feed_def answers_showing)
  ultimately show ?thesis by simp
qed

lemma long_grows:
  assumes "i < 120"
  shows "answers (passes long_feed i) \<and> \<not> discovered (passes long_feed i) \<subseteq> seen (passes long_feed) i"
proof -
  have "fresh i \<notin> fresh ` {..<i}" using fresh_inj by fastforce
  moreover have "min i 119 = i" using assms by simp
  ultimately have "\<not> discovered (passes long_feed i) \<subseteq> seen (passes long_feed) i"
    using seen_long[of i] assms by (simp add: long_feed_def discovered_fresh)
  moreover have "answers (passes long_feed i)" by (simp add: long_feed_def answers_showing)
  ultimately show ?thesis by simp
qed

lemma long_quiet: "quiet_from (passes long_feed) 120"
proof -
  have "discovered (passes long_feed i) \<subseteq> seen (passes long_feed) 120" if "120 \<le> i" for i
  proof -
    have "min i 119 = 119" using that by simp
    then have "discovered (passes long_feed i) = {fresh 119}"
      by (simp add: long_feed_def discovered_fresh)
    then show ?thesis by (simp add: seen_long)
  qed
  then show ?thesis by (simp add: quiet_from_def)
qed

subsection \<open>When a pass raises\<close>

lemma scan_images_isl: "isl (scan_images imgs urls) \<longleftrightarrow> list_ex isl imgs"
  by (induction imgs urls rule: scan_images.induct) auto

lemma scan_styles_isl: "isl (scan_styles elems urls) \<longleftrightarrow> list_ex isl elems"
  by (induction elems urls rule: scan_styles.induct) auto

lemma not_list_ex_isl: "\<not> list_ex isl xs \<Longrightarrow> list_all (\<lambda>a. \<not> isl a) xs"
  by (simp add: list_ex_iff list_all_iff)

lemma finish_pass_raises: "check_raises p \<Longrightarrow> isl (fst (finish_pass p s t))"
  by (auto simp: check_raises_def finish_pass_def bottom_check_def at_bottom_def isl_def
           split: sum.splits)

lemma finish_pass_goes_on:
  "\<not> check_raises p \<Longrightarrow>
     finish_pass p s t
       = (Inr (Continue, s), t @ (if at_bottom p then [Sleep 1, Scroll_to_bottom, Sleep 2] else []))"
  by (auto simp: check_raises_def finish_pass_def bottom_check_def at_bottom_def
           split: sum.splits)

lemma scan_raises_pass: "scan_raises p \<Longrightarrow> isl (fst (pass_body p s tr))"
proof -
  assume a: "scan_raises p"
  show ?thesis
  proof (cases "scroll_to_bottom p")
    case (Inl e)
    then show ?thesis by (simp add: pass_body_def)
  next
    case sc: (Inr u)
    show ?thesis
    proof (cases "images p")
      case (Inl e)
      then show ?thesis using sc by (simp add: pass_body_def)
    next
      case im: (Inr imgs)
      show ?thesis
      proof (cases "scan_images imgs (image_urls s)")
        case (Inl e)
        then show ?thesis using sc im by (simp add: pass_body_def)
      next
        case si: (Inr urls1)
        then have ni: "\<not> list_ex isl imgs" using scan_images_isl[of imgs "image_urls s"] by simp
        show ?thesis
        proof (cases "elements_with_bg p")
          case (Inl e)
          then show ?thesis using sc im si by (simp add: pass_body_def)
        next
          case el: (Inr elems)
          with a sc im ni have "list_ex isl elems" by (simp add: scan_raises_def)
          then have "isl (scan_styles elems urls1)" by (simp add: scan_styles_isl)
          then obtain e where "scan_styles elems urls1 = Inl e"
            by (cases "scan_styles elems urls1") auto
          then show ?thesis using sc im si el by (simp add: pass_body_def)
        qed
      qed
    qed
  qed
qed

text \<open>A pass whose scans do not raise, as a function of what it shows.\<close>

lemma calm_scan_pass:
  assumes "\<not> scan_raises p"
  shows "pass_body p s tr =
     (if last_count s < card (image_urls s \<union> discovered p) then
        finish_pass p
          (s\<lparr>image_urls := image_urls s \<union> discovered p,
             last_count := card (image_urls s \<union> discovered p), scroll_attempts := 0\<rparr>)
          (tr @ [Scroll_to_bottom, Sleep 2, Print (Found (card (image_urls s \<union> discovered p)))])
      else if no_new_images_threshold \<le> scroll_attempts s + 1 then
        (Inr (Break, s\<lparr>image_urls := image_urls s \<union> discovered p,
                         scroll_attempts := scroll_attempts s + 1\<rparr>),
         tr @ [Scroll_to_bottom, Sleep 2, Print (Stopping no_new_images_threshold)])
      else
        finish_pass p
          (s\<lparr>image_urls := image_urls s \<union> discovered p,
             scroll_attempts := scroll_attempts s + 1\<rparr>)
          (tr @ [Scroll_to_bottom, Sleep 2]))"
proof -
  from assms obtain u where a1: "scroll_to_bottom p = Inr u"
    unfolding scan_raises_def using not_isl by blast
  from assms obtain imgs where a2: "images p = Inr imgs" "\<not> list_ex isl imgs"
    unfolding scan_raises_def by (cases "images p") auto
  from assms obtain elems where a3: "elements_with_bg p = Inr elems" "\<not> list_ex isl elems"
    unfolding scan_raises_def by (cases "elements_with_bg p") auto
  have d: "discovered p = set (img_urls imgs) \<union> set (style_urls elems)"
    by (simp add: discovered_def a2 a3)
  show ?thesis
    unfolding pass_body_def Let_def
    by (simp add: a1 a2 a3 d Un_assoc scan_images_answers[OF not_list_ex_isl[OF a2(2)]]
          scan_styles_answers[OF not_list_ex_isl[OF a3(2)]])
qed

lemma pass_raises_iff:
  "isl (fst (pass_body p s tr))
     \<longleftrightarrow> scan_raises p \<or> (reaches_check s p \<and> check_raises p)"
proof (cases "scan_raises p")
  case True
  then show ?thesis using scan_raises_pass by simp
next
  case False
  show ?thesis
  proof (cases "check_raises p")
    case True
    then show ?thesis
      using False finish_pass_raises[OF True]
      by (auto simp: calm_scan_pass[OF False] reaches_check_def)
  next
    case c: False
    then show ?thesis
      using False by (simp add: calm_scan_pass[OF False] finish_pass_goes_on[OF c])
  qed
qed

lemma gap_quiet: "quiet_from (passes gap_feed) 6"
proof -
  have "discovered (passes gap_feed i) \<subseteq> seen (passes gap_feed) 6" if "6 \<le> i" for i
  proof -
    have "passes gap_feed i = showing [] []" using that by (simp add: gap_feed_def)
    then show ?thesis by (simp add: discovered_showing)
  qed
  then show ?thesis by (simp add: quiet_from_def)
qed

section \<open>The claims\<close>

text \<open>
  C5. Extension-filter extractor: on the style string
  \<^verbatim>\<open>background-image: url("https://x/y.avif?q=1")\<close> the pattern of line 69 yields exactly
  the one URL \<^verbatim>\<open>https://x/y.avif?q=1\<close>, and the style scan adds exactly that URL; on a
  style string that does not contain \<^verbatim>\<open>.avif\<close> the pattern yields nothing, and the style
  scan (whose guard of line 66 does not even run the pattern) adds nothing.
\<close>

theorem extractor_correct:
  "findall example_style = [''https://x/y.avif?q=1'']
   \<and> scan_styles [Inr (Some example_style)] {} = Inr {''https://x/y.avif?q=1''}
   \<and> (\<not> str_in avif style \<longrightarrow>
        findall style = [] \<and> scan_styles [Inr (Some style)] urls = Inr urls)"
proof -
  have 1: "findall example_style = [''https://x/y.avif?q=1'']" by code_simp
  have "str_in avif example_style" by code_simp
  moreover have "example_style \<noteq> []" by (simp add: example_style_def)
  ultimately have 2: "scan_styles [Inr (Some example_style)] {} = Inr {''https://x/y.avif?q=1''}"
    using 1 by simp
  show ?thesis using 1 2 findall_no_avif by simp
qed

theorem extractor_correct_witness:
  "\<not> str_in avif ''color: red; background-image: url(x.png)''
   \<and> findall ''color: red; background-image: url(x.png)'' = []
   \<and> scan_styles [Inr (Some ''color: red; background-image: url(x.png)'')] {''a.avif''}
       = Inr {''a.avif''}"
proof -
  have h: "\<not> str_in avif ''color: red; background-image: url(x.png)''" by code_simp
  with extractor_correct[of "''color: red; background-image: url(x.png)''" "{''a.avif''}"]
  show ?thesis by blast
qed

text \<open>
  C9. The scans are total over elements that lack the attribute: an element whose
  \<^verbatim>\<open>get_attribute\<close> answers \<^verbatim>\<open>None\<close> raises nothing and adds nothing, wherever it stands
  among the elements found; the scan goes as if the element were not there.
\<close>

theorem absent_attribute_skipped:
  "scan_images (imgs1 @ Inr None # imgs2) urls = scan_images (imgs1 @ imgs2) urls
   \<and> scan_styles (elems1 @ Inr None # elems2) urls = scan_styles (elems1 @ elems2) urls
   \<and> scan_images [Inr None] urls = Inr urls
   \<and> scan_styles [Inr None] urls = Inr urls"
proof -
  have "scan_images (imgs1 @ Inr None # imgs2) urls = scan_images (imgs1 @ imgs2) urls"
    by (induction imgs1 urls rule: scan_images.induct) simp_all
  moreover have "scan_styles (elems1 @ Inr None # elems2) urls = scan_styles (elems1 @ elems2) urls"
    by (induction elems1 urls rule: scan_styles.induct) simp_all
  ultimately show ?thesis by simp
qed

text \<open>
  C10. Every string in the URL set contains \<^verbatim>\<open>.avif\<close>: each scan only adds strings that
  contain it, so the set holds only such strings whenever the loop is at its head, and
  so do the list the run returns and the numbered lines it prints.
\<close>

theorem avif_marker_invariant:
  "(scan_images imgs urls = Inr urls1 \<longrightarrow> (\<forall>u\<in>urls1 - urls. str_in avif u))
   \<and> (scan_styles elems urls' = Inr urls2 \<longrightarrow> (\<forall>u\<in>urls2 - urls'. str_in avif u))
   \<and> (loop_head ps tr0 k = Some (s, tr1) \<longrightarrow> (\<forall>u\<in>image_urls s. str_in avif u))
   \<and> (scrape_avif_images b = Some (Returned found, tr, n) \<longrightarrow>
        (\<forall>u\<in>set found. str_in avif u)
        \<and> (\<forall>i u. Print (Listing i u) \<in> set tr \<longrightarrow> str_in avif u))"
proof (intro conjI impI)
  assume "scan_images imgs urls = Inr urls1"
  from scan_images_result[OF this] show "\<forall>u\<in>urls1 - urls. str_in avif u"
    by (auto dest: img_urls_avif)
next
  assume "scan_styles elems urls' = Inr urls2"
  from scan_styles_result[OF this] show "\<forall>u\<in>urls2 - urls'. str_in avif u"
    by (auto dest: style_urls_avif)
next
  assume "loop_head ps tr0 k = Some (s, tr1)"
  from loop_head_inv[OF this] show "\<forall>u\<in>image_urls s. str_in avif u"
    by (auto dest: seen_avif)
next
  assume run: "scrape_avif_images b = Some (Returned found, tr, n)"
  have st: "driver_starts b" using run scrape_no_driver[of b] by auto
  note eq = run[unfolded scrape_started[OF st]]
  have pre: "\<not> (\<exists>i u. e = Print (Listing i u))" if "e \<in> set (loop_start b)" for e
    using that driver_start_events[of e b] by (auto simp: loop_start_eq)
  have "(\<forall>u\<in>set found. str_in avif u)
        \<and> (\<forall>i u. Print (Listing i u) \<in> set tr \<longrightarrow> str_in avif u)"
  proof (cases "get_page b")
    case (Inl e)
    with eq have "found = []" "tr = driver_start b
        @ [Print (Loading target_url), Print Error_occurred, Print Closing, Quit]" by auto
    then show ?thesis using driver_start_events[of _ b] by auto
  next
    case (Inr u)
    with eq obtain x tr' where
      sl: "scroll_loop (passes b) 0 init_state (loop_start b) = Some (x, tr', n)"
      by (auto split: option.splits prod.splits sum.splits)
    from scroll_loop_result[OF sl] obtain ext where
      ext: "tr' = loop_start b @ ext" "list_all loop_event ext" and
      im: "\<forall>s'. x = Inr s' \<longrightarrow> image_urls s' = seen (passes b) n" by blast
    have nl: "\<not> Print (Listing i u) \<in> set tr'" for i u
      using ext pre loop_event_mem[OF ext(2)] by fastforce
    show ?thesis
    proof (cases x)
      case (Inl e)
      with eq Inr sl have "found = []" "tr = tr' @ [Print Error_occurred, Print Closing, Quit]"
        by auto
      then show ?thesis using nl by auto
    next
      case (Inr s')
      with eq \<open>get_page b = Inr u\<close> sl have
        f: "found = sorted_list_of_set (image_urls s')" and
        t: "tr = tr' @ [Print (Total_found (card (image_urls s')))]
                  @ listing found @ [Print Closing, Quit]" by auto
      have "image_urls s' = seen (passes b) n" using im Inr by simp
      then have "set found = seen (passes b) n" using f finite_seen by simp
      then have a: "\<forall>u\<in>set found. str_in avif u" using seen_avif by blast
      have "str_in avif u" if "Print (Listing i u) \<in> set tr" for i u
      proof -
        from that t nl have "Print (Listing i u) \<in> set (listing found)" by auto
        from listing_mem[OF this] a show ?thesis by blast
      qed
      with a show ?thesis by blast
    qed
  qed
  then show "\<forall>u\<in>set found. str_in avif u"
    and "\<forall>i u. Print (Listing i u) \<in> set tr \<longrightarrow> str_in avif u" by blast+
qed


theorem avif_marker_invariant_witness:
  "scan_images [Inr (Some ''a.avif''), Inr (Some ''logo.png'')] {} = Inr {''a.avif''}
   \<and> str_in avif ''a.avif''
   \<and> scan_styles [Inr (Some ''background: url(c.avif)'')] {''a.avif''} = Inr {''c.avif'', ''a.avif''}
   \<and> str_in avif ''c.avif''
   \<and> loop_head (passes demo) [] 1
        = Some (\<lparr>image_urls = {''b.avif'', ''a.avif''}, last_count = 2, scroll_attempts = 0\<rparr>,
                [Scroll_to_bottom, Sleep 2, Print (Found 2)])
   \<and> str_in avif ''b.avif''
   \<and> scrape_avif_images demo = Some (Returned [''a.avif'', ''b.avif'', ''c.avif''], demo_events, 5)
   \<and> Print (Listing 3 ''c.avif'') \<in> set demo_events"
proof -
  have 1: "scan_images [Inr (Some ''a.avif''), Inr (Some ''logo.png'')] {} = Inr {''a.avif''}"
    by code_simp
  have 2: "scan_styles [Inr (Some ''background: url(c.avif)'')] {''a.avif''}
             = Inr {''c.avif'', ''a.avif''}"
    by code_simp
  have 3: "loop_head (passes demo) [] 1
        = Some (\<lparr>image_urls = {''b.avif'', ''a.avif''}, last_count = 2, scroll_attempts = 0\<rparr>,
                [Scroll_to_bottom, Sleep 2, Print (Found 2)])"
    by code_simp
  have 4: "scrape_avif_images demo
             = Some (Returned [''a.avif'', ''b.avif'', ''c.avif''], demo_events, 5)"
    by code_simp
  note t = avif_marker_invariant[of "[Inr (Some ''a.avif''), Inr (Some ''logo.png'')]" "{}" "{''a.avif''}"
      "[Inr (Some ''background: url(c.avif)'')]" "{''a.avif''}" "{''c.avif'', ''a.avif''}"
      "passes demo" "[]" 1
      "\<lparr>image_urls = {''b.avif'', ''a.avif''}, last_count = 2, scroll_attempts = 0\<rparr>"
      "[Scroll_to_bottom, Sleep 2, Print (Found 2)]" demo
      "[''a.avif'', ''b.avif'', ''c.avif'']" demo_events 5,
      unfolded loop_state.select_convs]
  have 5: "Print (Listing 3 ''c.avif'') \<in> set demo_events" by (simp add: demo_events_def)
  from t 1 2 3 have "str_in avif ''a.avif''" "str_in avif ''c.avif''" "str_in avif ''b.avif''"
    by blast+
  with 1 2 3 4 5 show ?thesis by blast
qed

text \<open>
  C3. Once a driver has started, an exception raised by the navigation, or by a call of a
  pass that the loop runs (in its scans: the scroll, a \<^verbatim>\<open>find_elements\<close>, the
  \<^verbatim>\<open>get_attribute\<close> of an image or of a styled element; or, when the pass does not
  break, a read of the geometry or the extra scroll), makes the run return the empty list,
  not the URLs collected so far, and \<^verbatim>\<open>driver.quit()\<close> is still called exactly once;
  indeed every run that ends after a driver has started has called it exactly once, as its
  last action.
\<close>

theorem exception_returns_empty:
  assumes "driver_starts b"
  shows "(isl (get_page b) \<longrightarrow>
            (\<exists>tr. scrape_avif_images b = Some (Returned [], tr, 0) \<and> count_list tr Quit = 1))
       \<and> (\<not> isl (get_page b) \<and> loop_head (passes b) (loop_start b) k = Some (s, tr1)
            \<and> (scan_raises (passes b k)
                \<or> (reaches_check s (passes b k) \<and> check_raises (passes b k))) \<longrightarrow>
            (\<exists>tr. scrape_avif_images b = Some (Returned [], tr, Suc k) \<and> count_list tr Quit = 1))
       \<and> (scrape_avif_images b = Some (out, tr', n) \<longrightarrow> count_list tr' Quit = 1 \<and> last tr' = Quit)"
proof (intro conjI impI)
  assume "isl (get_page b)"
  then obtain e where "get_page b = Inl e" by (cases "get_page b") auto
  then show "\<exists>tr. scrape_avif_images b = Some (Returned [], tr, 0) \<and> count_list tr Quit = 1"
    by (simp add: scrape_started[OF assms] driver_start_no_quit)
next
  assume a: "\<not> isl (get_page b) \<and> loop_head (passes b) (loop_start b) k = Some (s, tr1)
            \<and> (scan_raises (passes b k)
                \<or> (reaches_check s (passes b k) \<and> check_raises (passes b k)))"
  then obtain u where g: "get_page b = Inr u" by (cases "get_page b") auto
  from a have "isl (fst (pass_body (passes b k) s tr1))" by (simp add: pass_raises_iff)
  then obtain e tr2 where pb: "pass_body (passes b k) s tr1 = (Inl e, tr2)"
    by (cases "pass_body (passes b k) s tr1") (auto simp: isl_def)
  from a have h: "loop_head (passes b) (loop_start b) k = Some (s, tr1)" by simp
  have "scroll_attempts s < max_scroll_attempts"
    using loop_head_inv[OF h] by (simp add: no_new_images_threshold_def max_scroll_attempts_def)
  then have "ends_at (passes b) k s tr1 (Inl e, tr2, Suc k)" using pb by (simp add: ends_at_def)
  from ends_at_scroll_loop[OF h this]
  have sl: "scroll_loop (passes b) 0 init_state (loop_start b) = Some (Inl e, tr2, Suc k)" .
  from scroll_loop_result[OF sl] obtain ext where
    "tr2 = loop_start b @ ext" "list_all loop_event ext" by blast
  then have "count_list tr2 Quit = 0" by (simp add: loop_start_no_quit loop_events_no_quit)
  then show "\<exists>tr. scrape_avif_images b = Some (Returned [], tr, Suc k) \<and> count_list tr Quit = 1"
    by (simp add: scrape_started[OF assms] g sl)
next
  assume run: "scrape_avif_images b = Some (out, tr', n)"
  note eq = run[unfolded scrape_started[OF assms]]
  have "count_list tr' Quit = 1 \<and> last tr' = Quit"
  proof (cases "get_page b")
    case (Inl e)
    with eq show ?thesis by (auto simp: driver_start_no_quit)
  next
    case (Inr u)
    with eq obtain x tr2 where
      sl: "scroll_loop (passes b) 0 init_state (loop_start b) = Some (x, tr2, n)"
      by (auto split: option.splits prod.splits sum.splits)
    from scroll_loop_result[OF sl] obtain ext where
      "tr2 = loop_start b @ ext" "list_all loop_event ext" by blast
    then have q: "count_list tr2 Quit = 0" by (simp add: loop_start_no_quit loop_events_no_quit)
    show ?thesis using eq Inr sl q by (cases x) (auto simp: listing_no_quit)
  qed
  then show "count_list tr' Quit = 1" and "last tr' = Quit" by simp_all
qed

theorem exception_returns_empty_witness:
  "driver_starts unreachable \<and> isl (get_page unreachable)
   \<and> scrape_avif_images unreachable = Some (Returned [], unreachable_events, 0)
   \<and> count_list unreachable_events Quit = 1
   \<and> driver_starts stale \<and> \<not> isl (get_page stale)
   \<and> loop_head (passes stale) (loop_start stale) 1 = Some stale_head
   \<and> scan_raises (passes stale 1)
   \<and> scrape_avif_images stale = Some (Returned [], stale_events, 2)
   \<and> count_list stale_events Quit = 1 \<and> last stale_events = Quit
   \<and> driver_starts restyled \<and> \<not> isl (get_page restyled)
   \<and> scan_raises (passes restyled 0)
   \<and> (\<exists>tr. scrape_avif_images restyled = Some (Returned [], tr, Suc 0) \<and> count_list tr Quit = 1)
   \<and> driver_starts blind \<and> \<not> isl (get_page blind)
   \<and> \<not> scan_raises (passes blind 0)
   \<and> reaches_check init_state (passes blind 0) \<and> check_raises (passes blind 0)
   \<and> (\<exists>tr. scrape_avif_images blind = Some (Returned [], tr, Suc 0) \<and> count_list tr Quit = 1)"
proof -
  have 1: "driver_starts unreachable" "isl (get_page unreachable)" by code_simp+
  have 2: "scrape_avif_images unreachable = Some (Returned [], unreachable_events, 0)"
    by code_simp
  have 3: "driver_starts stale" "\<not> isl (get_page stale)" by code_simp+
  have 4: "loop_head (passes stale) (loop_start stale) 1 = Some (fst stale_head, snd stale_head)"
    by code_simp
  have 5: "scan_raises (passes stale 1)" by code_simp
  have 6: "scrape_avif_images stale = Some (Returned [], stale_events, 2)" by code_simp
  have r: "driver_starts restyled" "\<not> isl (get_page restyled)" "scan_raises (passes restyled 0)"
    by code_simp+
  have b: "driver_starts blind" "\<not> isl (get_page blind)" "\<not> scan_raises (passes blind 0)"
    "reaches_check init_state (passes blind 0)" "check_raises (passes blind 0)"
    by code_simp+
  have h0: "loop_head (passes c) (loop_start c) 0 = Some (init_state, loop_start c)" for c
    by simp
  note u = exception_returns_empty[OF 1(1), of 0 init_state "[]" "Returned []" unreachable_events 0]
  note t = exception_returns_empty[OF 3(1), of 1 "fst stale_head" "snd stale_head"
      "Returned []" stale_events 2]
  note tr = exception_returns_empty[OF r(1), of 0 init_state "loop_start restyled"
      "Returned []" "[]" 0]
  note tb = exception_returns_empty[OF b(1), of 0 init_state "loop_start blind"
      "Returned []" "[]" 0]
  from u 2 have 7: "count_list unreachable_events Quit = 1" by blast
  from t 6 have 8: "count_list stale_events Quit = 1" "last stale_events = Quit" by blast+
  from 4 have 9: "loop_head (passes stale) (loop_start stale) 1 = Some stale_head" by simp
  from tr r h0[of restyled] have 10:
    "\<exists>tr. scrape_avif_images restyled = Some (Returned [], tr, Suc 0) \<and> count_list tr Quit = 1"
    by blast
  from tb b h0[of blind] have 11:
    "\<exists>tr. scrape_avif_images blind = Some (Returned [], tr, Suc 0) \<and> count_list tr Quit = 1"
    by blast
  from 1 2 3 5 6 7 8 9 10 11 r b show ?thesis by blast
qed

text \<open>
  C6, as the code has it. De-duplication: the list a run returns has no repetitions; when the run has ended
  without an exception, a URL stands in it exactly once if one of the passes run has
  shown it (in the \<^verbatim>\<open>src\<close> of an image, in an inline style, or in both, in one pass or
  in several), and not at all otherwise.
\<close>

theorem each_url_once:
  assumes "scrape_avif_images b = Some (Returned found, tr, n)"
  shows "distinct found
       \<and> (Print Error_occurred \<notin> set tr \<longrightarrow>
            set found = seen (passes b) n
            \<and> (\<forall>u. count_list found u = (if u \<in> seen (passes b) n then 1 else 0)))"
proof -
  have st: "driver_starts b" using assms scrape_no_driver[of b] by auto
  note eq = assms[unfolded scrape_started[OF st]]
  show ?thesis
  proof (cases "get_page b")
    case (Inl e)
    with eq show ?thesis by auto
  next
    case (Inr u)
    with eq obtain x tr' where
      sl: "scroll_loop (passes b) 0 init_state (loop_start b) = Some (x, tr', n)"
      by (auto split: option.splits prod.splits sum.splits)
    show ?thesis
    proof (cases x)
      case (Inl e)
      with eq Inr sl show ?thesis by auto
    next
      case (Inr s')
      with eq \<open>get_page b = Inr u\<close> sl have f: "found = sorted_list_of_set (image_urls s')"
        by auto
      from scroll_loop_result[OF sl] Inr have "image_urls s' = seen (passes b) n" by blast
      then have "set found = seen (passes b) n" "distinct found" using f finite_seen by simp_all
      then show ?thesis using distinct_count[of found] by simp
    qed
  qed
qed

theorem each_url_once_witness:
  "scrape_avif_images demo = Some (Returned [''a.avif'', ''b.avif'', ''c.avif''], demo_events, 5)
   \<and> Print Error_occurred \<notin> set demo_events
   \<and> ''a.avif'' \<in> set (img_urls [Inr (Some ''a.avif''), Inr (Some ''b.avif'')])
   \<and> ''a.avif'' \<in> set (style_urls [Inr (Some ''background: url(c.avif)''),
                                      Inr (Some ''background: url(a.avif)'')])
   \<and> ''a.avif'' \<in> seen (passes demo) 5
   \<and> distinct [''a.avif'', ''b.avif'', ''c.avif'']
   \<and> count_list [''a.avif'', ''b.avif'', ''c.avif''] ''a.avif'' = 1
   \<and> count_list [''a.avif'', ''b.avif'', ''c.avif''] ''logo.png'' = 0"
proof -
  have 1: "scrape_avif_images demo
             = Some (Returned [''a.avif'', ''b.avif'', ''c.avif''], demo_events, 5)"
    by code_simp
  have 2: "Print Error_occurred \<notin> set demo_events" by (simp add: demo_events_def)
  have 3: "''a.avif'' \<in> set (img_urls [Inr (Some ''a.avif''), Inr (Some ''b.avif'')])"
    by code_simp
  have 4: "''a.avif'' \<in> set (style_urls [Inr (Some ''background: url(c.avif)''),
                                      Inr (Some ''background: url(a.avif)'')])"
    by code_simp
  have 5: "''a.avif'' \<in> seen (passes demo) 5" by code_simp
  have 6: "''logo.png'' \<notin> seen (passes demo) 5" by code_simp
  note t = each_url_once[OF 1]
  from t 2 have d: "distinct [''a.avif'', ''b.avif'', ''c.avif'']" by blast
  from t 2 have c: "count_list [''a.avif'', ''b.avif'', ''c.avif''] u
                      = (if u \<in> seen (passes demo) 5 then 1 else 0)" for u by blast
  from c[of "''a.avif''"] 5 have 7: "count_list [''a.avif'', ''b.avif'', ''c.avif''] ''a.avif'' = 1"
    by (simp only: if_True)
  from c[of "''logo.png''"] 6 have 8: "count_list [''a.avif'', ''b.avif'', ''c.avif''] ''logo.png'' = 0"
    by (simp only: if_False)
  from 1 2 3 4 5 d 7 8 show ?thesis by blast
qed

text \<open>The claim as the specification states it fails where an exception ends the run:
  on \<open>stale\<close> the first pass discovers \<^verbatim>\<open>a.avif\<close>, the second raises, and the URL is
  not in the list returned.\<close>

theorem each_url_once_counterexample:
  "''a.avif'' \<in> discovered (passes stale 0)
   \<and> loop_head (passes stale) (loop_start stale) 1 = Some stale_head
   \<and> ''a.avif'' \<in> image_urls (fst stale_head)
   \<and> scrape_avif_images stale = Some (Returned [], stale_events, 2)
   \<and> count_list [] ''a.avif'' \<noteq> 1"
proof -
  have 1: "''a.avif'' \<in> discovered (passes stale 0)" by code_simp
  have 2: "loop_head (passes stale) (loop_start stale) 1 = Some (fst stale_head, snd stale_head)"
    by code_simp
  have 3: "''a.avif'' \<in> image_urls (fst stale_head)" by (simp add: stale_head_def)
  have 4: "scrape_avif_images stale = Some (Returned [], stale_events, 2)" by code_simp
  from 1 2 3 4 show ?thesis by simp
qed

text \<open>
  What holds of the engines and of the exit status. Chrome is tried first and Firefox only
  when Chrome has failed to start; the exit status is 1 exactly when neither starts. When
  one starts, the status is 0 whenever the run ends, whatever it found; and the run does
  end when the page cannot be loaded or when, from some pass on, the passes show no URL
  that is new.
\<close>

lemma engine_fallback_exit_status:
  "fst (initialize_driver b tr)
     = (if \<not> isl (chrome b) then Inr Chrome
        else if \<not> isl (firefox b) then Inr Firefox else Inl 1)
   \<and> (Launch Firefox \<in> set (driver_start b) \<longleftrightarrow> isl (chrome b))
   \<and> (exit_status b = Some 1 \<longleftrightarrow> isl (chrome b) \<and> isl (firefox b))
   \<and> (driver_starts b \<longrightarrow> exit_status b = map_option (\<lambda>r. 0) (scrape_avif_images b))
   \<and> (driver_starts b \<and> (isl (get_page b) \<or> quiet_from (passes b) K)
        \<longrightarrow> exit_status b = Some 0)"
proof -
  have 1: "fst (initialize_driver b tr)
     = (if \<not> isl (chrome b) then Inr Chrome
        else if \<not> isl (firefox b) then Inr Firefox else Inl 1)"
    by (auto simp: initialize_driver_def split: sum.splits)
  have 2: "Launch Firefox \<in> set (driver_start b) \<longleftrightarrow> isl (chrome b)"
    by (auto simp: driver_start_def initialize_driver_def split: sum.splits)
  have ret: "\<exists>found tr' n. scrape_avif_images b = Some (Returned found, tr', n)"
    if "driver_starts b" "scrape_avif_images b \<noteq> None"
    using that(2) unfolding scrape_started[OF that(1)]
    by (auto split: sum.splits option.splits prod.splits)
  have 4: "exit_status b = map_option (\<lambda>r. 0) (scrape_avif_images b)" if "driver_starts b"
  proof (cases "scrape_avif_images b")
    case None
    then show ?thesis by (simp add: exit_status_def)
  next
    case (Some r)
    with ret[OF that] show ?thesis by (auto simp: exit_status_def)
  qed
  have 3: "exit_status b = Some 1 \<longleftrightarrow> isl (chrome b) \<and> isl (firefox b)"
  proof (cases "driver_starts b")
    case True
    then show ?thesis using 4[OF True] by (cases "scrape_avif_images b") (auto simp: driver_starts_def)
  next
    case False
    then show ?thesis using scrape_no_driver[OF False]
      by (auto simp: exit_status_def driver_starts_def)
  qed
  have 5: "exit_status b = Some 0"
    if st: "driver_starts b"
      and q: "isl (get_page b) \<or> quiet_from (passes b) K"
  proof -
    have "scrape_avif_images b \<noteq> None"
    proof (cases "get_page b")
      case (Inl e)
      then show ?thesis by (simp add: scrape_started[OF st])
    next
      case (Inr u)
      with q have "\<forall>i\<ge>K. discovered (passes b i) \<subseteq> seen (passes b) K"
        by (simp add: quiet_from_def)
      from quiet_halts[OF this, of "loop_start b"] obtain x tr' n where
        "scroll_loop (passes b) 0 init_state (loop_start b) = Some (x, tr', n)" by blast
      then show ?thesis using Inr by (cases x) (simp_all add: scrape_started[OF st])
    qed
    then show ?thesis using 4[OF st] by auto
  qed
  from 1 2 3 4 5 show ?thesis by blast
qed

text \<open>
  C7. The exit status is 1 exactly when neither engine starts (above), but it is not 0 in
  every other case: on the endless feed Chrome starts, the page loads, and the run never
  leaves the loop of line 48, so the process has no exit status at all.
\<close>

theorem exit_status_missing:
  "driver_starts endless_feed \<and> \<not> isl (get_page endless_feed)
   \<and> exit_status endless_feed = None \<and> exit_status endless_feed \<noteq> Some 0"
proof -
  have se: "driver_starts endless_feed" and ge: "get_page endless_feed = Inr ()"
    by (simp_all add: driver_starts_def endless_feed_def)
  have "scroll_loop (passes endless_feed) 0 init_state (loop_start endless_feed) = None"
    using always_growing endless_grows by blast
  then have "scrape_avif_images endless_feed = None"
    by (simp add: scrape_started[OF se] ge)
  then have "exit_status endless_feed = None" by (simp add: exit_status_def)
  with se ge show ?thesis by simp
qed

text \<open>
  C4, as the code has it. No-growth stopping. Passes are numbered from 0, so pass \<open>i\<close> is iteration \<open>i + 1\<close>.
  When no driver call raises and no pass from pass \<open>K\<close> on shows a new URL (the source has
  stopped producing after iteration \<open>K\<close>), the loop ends by its \<^verbatim>\<open>break\<close> after at most
  \<open>K + 3\<close> iterations, with the URLs of the passes it has run; it ends after exactly
  \<open>K + 3\<close> iterations when iteration \<open>K\<close> is the last one that brought a new URL (the loop
  got that far and pass \<open>K - 1\<close> showed one, or \<open>K = 0\<close>), in particular when every iteration
  up to \<open>K\<close> brought one. At every loop head, a pass that leaves the size of the set
  unchanged adds one to the counter, a pass that grows the set puts it back to zero, and the
  pass breaks exactly when the counter has reached 3.
\<close>

theorem no_growth_stopping:
  assumes "calm_until ps (K + 3)" and "quiet_from ps K"
  shows "(\<exists>s tr n. scroll_loop ps 0 init_state tr0 = Some (Inr s, tr, n)
            \<and> n \<le> K + 3 \<and> image_urls s = seen ps n
            \<and> (K = 0 \<or> (K \<le> n \<and> \<not> discovered (ps (K - 1)) \<subseteq> seen ps (K - 1)) \<longrightarrow> n = K + 3)
            \<and> ((\<forall>i<K. \<not> discovered (ps i) \<subseteq> seen ps i) \<longrightarrow> n = K + 3))
       \<and> (loop_head ps tr0 k = Some (s0, tr1) \<and> pass_body (ps k) s0 tr1 = (Inr (fl, s1), tr2) \<longrightarrow>
            scroll_attempts s1
              = (if card (image_urls s1) = card (image_urls s0) then scroll_attempts s0 + 1 else 0)
            \<and> (fl = Break \<longleftrightarrow> scroll_attempts s1 = no_new_images_threshold))"
proof (intro conjI impI)
  have q: "\<forall>i\<ge>K. discovered (ps i) \<subseteq> seen ps K" using assms(2) by (simp add: quiet_from_def)
  from quiet_halts[OF q, of tr0] obtain x tr n where
    sl: "scroll_loop ps 0 init_state tr0 = Some (x, tr, n)" and n: "n \<le> K + 3" by blast
  from scroll_loop_result[OF sl] obtain k' s' tr' where
    k: "n = Suc k'" and h: "loop_head ps tr0 k' = Some (s', tr')" and
    pb: "pass_body (ps k') s' tr' = (case x of Inl e \<Rightarrow> (Inl e, tr) | Inr s'' \<Rightarrow> (Inr (Break, s''), tr))" and
    im: "\<forall>s''. x = Inr s'' \<longrightarrow> image_urls s'' = seen ps n" by blast
  have "answers (ps k')" using calm_untilD[OF assms(1), of k'] k n by simp
  from answers_pass[OF this, of s' tr'] pb obtain s where x: "x = Inr s" by (cases x) auto
  have three: "n = K + 3" if hk: "loop_head ps tr0 K = Some (sK, trK)" and z: "scroll_attempts sK = 0"
    for sK trK
  proof -
    have "answers (ps K)" "answers (ps (Suc K))" "answers (ps (Suc (Suc K)))"
      using calm_untilD[OF assms(1)] by simp_all
    from three_quiet_passes[OF hk z assms(2) this] sl show ?thesis by auto
  qed
  have e1: "n = K + 3" if c: "K = 0 \<or> (K \<le> n \<and> \<not> discovered (ps (K - 1)) \<subseteq> seen ps (K - 1))"
  proof (cases "K = 0")
    case True
    then show ?thesis using three[of init_state tr0] by (simp add: init_state_def)
  next
    case False
    with c have kn: "K \<le> n" and g: "\<not> discovered (ps (K - 1)) \<subseteq> seen ps (K - 1)" by auto
    have "K - 1 \<le> k'" using kn k by simp
    from loop_head_defined_below[OF h this] obtain sp trp where
      hp: "loop_head ps tr0 (K - 1) = Some (sp, trp)" by auto
    have "answers (ps (K - 1))" using calm_untilD[OF assms(1), of "K - 1"] by simp
    from growing_pass[OF hp this g] obtain sK trK where
      "pass_body (ps (K - 1)) sp trp = (Inr (Continue, sK), trK)" "scroll_attempts sK = 0"
      by blast
    with loop_head_step[OF hp this(1)] False three[of sK trK] show ?thesis by simp
  qed
  have e2: "n = K + 3" if c: "\<forall>i<K. \<not> discovered (ps i) \<subseteq> seen ps i"
  proof -
    have "\<forall>i<K. answers (ps i) \<and> \<not> discovered (ps i) \<subseteq> seen ps i"
      using c calm_untilD[OF assms(1)] by simp
    from growing_heads[OF this, of tr0] three show ?thesis by blast
  qed
  show "\<exists>s tr n. scroll_loop ps 0 init_state tr0 = Some (Inr s, tr, n)
            \<and> n \<le> K + 3 \<and> image_urls s = seen ps n
            \<and> (K = 0 \<or> (K \<le> n \<and> \<not> discovered (ps (K - 1)) \<subseteq> seen ps (K - 1)) \<longrightarrow> n = K + 3)
            \<and> ((\<forall>i<K. \<not> discovered (ps i) \<subseteq> seen ps i) \<longrightarrow> n = K + 3)"
    using sl x n im e1 e2 by blast
next
  assume a: "loop_head ps tr0 k = Some (s0, tr1) \<and> pass_body (ps k) s0 tr1 = (Inr (fl, s1), tr2)"
  then have h: "loop_head ps tr0 k = Some (s0, tr1)"
    and pb: "pass_body (ps k) s0 tr1 = (Inr (fl, s1), tr2)" by simp_all
  note inv = loop_head_inv[OF h]
  have u: "image_urls s1 = seen ps k \<union> discovered (ps k)"
    using pass_body_state(1)[OF pb] inv by simp
  have le: "card (image_urls s0) \<le> card (image_urls s1)"
    unfolding u using inv by (intro card_mono) (simp_all add: finite_seen finite_discovered)
  have "scroll_attempts s1
          = (if card (image_urls s1) = card (image_urls s0) then scroll_attempts s0 + 1 else 0)
        \<and> (fl = Break \<longleftrightarrow> scroll_attempts s1 = no_new_images_threshold)"
  proof (cases "card (image_urls s1) > last_count s0")
    case True
    from pass_body_state(2)[OF pb True] True inv show ?thesis
      by (simp add: no_new_images_threshold_def)
  next
    case False
    from pass_body_state(3)[OF pb False] False le inv show ?thesis by auto
  qed
  then show "scroll_attempts s1
          = (if card (image_urls s1) = card (image_urls s0) then scroll_attempts s0 + 1 else 0)"
    and "fl = Break \<longleftrightarrow> scroll_attempts s1 = no_new_images_threshold" by simp_all
qed


theorem no_growth_stopping_witness:
  "calm_until (passes demo) (2 + 3) \<and> quiet_from (passes demo) 2
   \<and> \<not> discovered (passes demo 0) \<subseteq> seen (passes demo) 0
   \<and> \<not> discovered (passes demo 1) \<subseteq> seen (passes demo) 1
   \<and> (\<exists>s tr. scroll_loop (passes demo) 0 init_state [] = Some (Inr s, tr, 5)
          \<and> image_urls s = seen (passes demo) 5)
   \<and> loop_head (passes demo) [] 2 = Some demo_head
   \<and> pass_body (passes demo 2) (fst demo_head) (snd demo_head)
        = (Inr (Continue, (fst demo_head)\<lparr>scroll_attempts := 1\<rparr>),
           snd demo_head @ [Scroll_to_bottom, Sleep 2])
   \<and> card (image_urls ((fst demo_head)\<lparr>scroll_attempts := 1\<rparr>)) = card (image_urls (fst demo_head))
   \<and> scroll_attempts ((fst demo_head)\<lparr>scroll_attempts := 1\<rparr>) = scroll_attempts (fst demo_head) + 1"
proof -
  have 1: "calm_until (passes demo) (2 + 3)" by code_simp
  have 2: "\<not> discovered (passes demo 0) \<subseteq> seen (passes demo) 0"
    "\<not> discovered (passes demo 1) \<subseteq> seen (passes demo) 1" by code_simp+
  have 3: "loop_head (passes demo) [] 2 = Some (fst demo_head, snd demo_head)" by code_simp
  have 4: "pass_body (passes demo 2) (fst demo_head) (snd demo_head)
        = (Inr (Continue, (fst demo_head)\<lparr>scroll_attempts := 1\<rparr>),
           snd demo_head @ [Scroll_to_bottom, Sleep 2])" by code_simp
  have 5: "card (image_urls ((fst demo_head)\<lparr>scroll_attempts := 1\<rparr>))
             = card (image_urls (fst demo_head))" by simp
  have g: "\<forall>i<2. \<not> discovered (passes demo i) \<subseteq> seen (passes demo) i"
    using 2 by (auto simp: less_Suc_eq numeral_2_eq_2)
  note t = no_growth_stopping[OF 1 demo_quiet, of "[]" 2 "fst demo_head" "snd demo_head"
      Continue "(fst demo_head)\<lparr>scroll_attempts := 1\<rparr>" "snd demo_head @ [Scroll_to_bottom, Sleep 2]"]
  from t g have 6: "\<exists>s tr. scroll_loop (passes demo) 0 init_state [] = Some (Inr s, tr, 5)
          \<and> image_urls s = seen (passes demo) 5" by auto
  from t 3 4 5 have 7: "scroll_attempts ((fst demo_head)\<lparr>scroll_attempts := 1\<rparr>)
       = scroll_attempts (fst demo_head) + 1" by presburger
  from 3 have 8: "loop_head (passes demo) [] 2 = Some demo_head" by simp
  from 1 demo_quiet 2 6 8 4 5 7 show ?thesis by blast
qed

text \<open>The claim as the specification states it fails on a source with a gap: on
  \<open>gap_feed\<close> no driver call raises and nothing new comes after iteration 6, which does
  bring a URL, yet the loop has left after three fruitless iterations, not after nine.\<close>

theorem no_growth_stopping_counterexample:
  "calm_until (passes gap_feed) (6 + 3) \<and> quiet_from (passes gap_feed) 6
   \<and> \<not> discovered (passes gap_feed 5) \<subseteq> seen (passes gap_feed) 5
   \<and> scroll_loop (passes gap_feed) 0 init_state []
        = Some (Inr \<lparr>image_urls = {}, last_count = 0, scroll_attempts = 3\<rparr>,
                [Scroll_to_bottom, Sleep 2, Scroll_to_bottom, Sleep 2,
                 Scroll_to_bottom, Sleep 2, Print (Stopping 3)],
                3)
   \<and> (3::nat) \<noteq> 6 + 3"
proof -
  have 1: "calm_until (passes gap_feed) (6 + 3)" by code_simp
  have 2: "\<not> discovered (passes gap_feed 5) \<subseteq> seen (passes gap_feed) 5" by code_simp
  have 3: "scroll_loop (passes gap_feed) 0 init_state []
        = Some (Inr \<lparr>image_urls = {}, last_count = 0, scroll_attempts = 3\<rparr>,
                [Scroll_to_bottom, Sleep 2, Scroll_to_bottom, Sleep 2,
                 Scroll_to_bottom, Sleep 2, Print (Stopping 3)],
                3)" by code_simp
  from 1 2 3 gap_quiet show ?thesis by simp
qed

text \<open>
  C1. Termination within the cap of 100 iterations. The counter the loop condition of
  line 48 tests is the one line 79 puts back to zero whenever an iteration has found a new
  URL, and line 82 leaves the loop as soon as it is 3, so the condition
  \<^verbatim>\<open>scroll_attempts < max_scroll_attempts\<close> is never false and bounds nothing. On the
  endless feed the run never leaves the loop, and the process never exits; on the long
  feed, whose 120 images come one per scroll, the loop runs 123 iterations.
\<close>

theorem iteration_cap_not_enforced:
  "scrape_avif_images endless_feed = None
   \<and> exit_status endless_feed = None
   \<and> (\<exists>found tr. scrape_avif_images long_feed = Some (Returned found, tr, 123)
         \<and> length found = 120)"
proof -
  have se: "driver_starts endless_feed" and ge: "get_page endless_feed = Inr ()"
    by (simp_all add: driver_starts_def endless_feed_def)
  have "scroll_loop (passes endless_feed) 0 init_state (loop_start endless_feed) = None"
    using always_growing endless_grows by blast
  then have 1: "scrape_avif_images endless_feed = None"
    by (simp add: scrape_started[OF se] ge)
  then have 2: "exit_status endless_feed = None" by (simp add: exit_status_def)
  have sl: "driver_starts long_feed" and gl: "get_page long_feed = Inr ()"
    by (simp_all add: driver_starts_def long_feed_def)
  have "\<forall>i<120. answers (passes long_feed i)
          \<and> \<not> discovered (passes long_feed i) \<subseteq> seen (passes long_feed) i"
    using long_grows by blast
  from growing_heads[OF this, of "loop_start long_feed"] obtain s tr where
    h: "loop_head (passes long_feed) (loop_start long_feed) 120 = Some (s, tr)" and
    z: "scroll_attempts s = 0" by blast
  have a: "answers (passes long_feed i)" for i by (simp add: long_feed_def answers_showing)
  from three_quiet_passes[OF h z long_quiet a a a] obtain s' tr' where
    r: "scroll_loop (passes long_feed) 0 init_state (loop_start long_feed)
          = Some (Inr s', tr', 123)" and
    u: "image_urls s' = seen (passes long_feed) 120" by auto
  have "inj_on fresh {..<120}" using fresh_inj by (auto simp: inj_on_def)
  then have "card (image_urls s') = 120" unfolding u by (simp add: seen_long card_image)
  moreover have "finite (image_urls s')" unfolding u by (rule finite_seen)
  ultimately have "length (sorted_list_of_set (image_urls s')) = 120" by simp
  then have 3: "\<exists>found tr. scrape_avif_images long_feed = Some (Returned found, tr, 123)
         \<and> length found = 120"
    by (simp add: scrape_started[OF sl] gl r)
  from 1 2 3 show ?thesis by blast
qed

text \<open>
  C2, as the code has it. Each scan, each pass and each further loop head only add to the
  URL set, so nothing is removed once added; and when the run ends without an exception,
  the set at every loop head is part of the list returned. (When an exception ends the
  run, line 111 returns the empty list, whatever the set held.)
\<close>

theorem monotonic_accumulation:
  "(scan_images imgs urls = Inr urls1 \<longrightarrow> urls \<subseteq> urls1)
   \<and> (scan_styles elems urls' = Inr urls2 \<longrightarrow> urls' \<subseteq> urls2)
   \<and> (pass_body p s tr = (Inr (fl, s'), tr') \<longrightarrow> image_urls s \<subseteq> image_urls s')
   \<and> (loop_head ps tr0 i = Some (si, tri) \<and> loop_head ps tr0 j = Some (sj, trj) \<and> i \<le> j
        \<longrightarrow> image_urls si \<subseteq> image_urls sj)
   \<and> (scrape_avif_images b = Some (Returned found, tr2, n) \<and> Print Error_occurred \<notin> set tr2
        \<and> loop_head (passes b) (loop_start b) k = Some (sk, trk)
        \<longrightarrow> image_urls sk \<subseteq> set found)"
proof (intro conjI impI)
  assume "scan_images imgs urls = Inr urls1"
  from scan_images_result[OF this] show "urls \<subseteq> urls1" by simp
next
  assume "scan_styles elems urls' = Inr urls2"
  from scan_styles_result[OF this] show "urls' \<subseteq> urls2" by simp
next
  assume "pass_body p s tr = (Inr (fl, s'), tr')"
  from pass_body_state(1)[OF this] show "image_urls s \<subseteq> image_urls s'" by simp
next
  assume "loop_head ps tr0 i = Some (si, tri) \<and> loop_head ps tr0 j = Some (sj, trj) \<and> i \<le> j"
  then show "image_urls si \<subseteq> image_urls sj"
    using loop_head_inv[of ps tr0 i si tri] loop_head_inv[of ps tr0 j sj trj] seen_mono[of i j ps]
    by simp
next
  assume a: "scrape_avif_images b = Some (Returned found, tr2, n) \<and> Print Error_occurred \<notin> set tr2
        \<and> loop_head (passes b) (loop_start b) k = Some (sk, trk)"
  then have run: "scrape_avif_images b = Some (Returned found, tr2, n)"
    and ne: "Print Error_occurred \<notin> set tr2"
    and h: "loop_head (passes b) (loop_start b) k = Some (sk, trk)" by simp_all
  have st: "driver_starts b" using run scrape_no_driver[of b] by auto
  note eq = run[unfolded scrape_started[OF st]]
  from eq ne obtain u where g: "get_page b = Inr u" by (cases "get_page b") auto
  with eq obtain x tr' where
    sl: "scroll_loop (passes b) 0 init_state (loop_start b) = Some (x, tr', n)"
    by (auto split: option.splits prod.splits sum.splits)
  from eq g sl ne obtain sf where x: "x = Inr sf" by (cases x) auto
  with eq g sl have f: "found = sorted_list_of_set (image_urls sf)" by auto
  from scroll_loop_result[OF sl] x have
    im: "image_urls sf = seen (passes b) n" and hn: "loop_head (passes b) (loop_start b) n = None"
    by auto
  have "k \<le> n"
  proof (rule ccontr)
    assume "\<not> k \<le> n"
    then have "loop_head (passes b) (loop_start b) k = None"
      using loop_head_None_mono[OF hn, of k] by simp
    with h show False by simp
  qed
  then have "seen (passes b) k \<subseteq> seen (passes b) n" by (rule seen_mono)
  moreover have "set found = seen (passes b) n" using f im finite_seen by simp
  ultimately show "image_urls sk \<subseteq> set found" using loop_head_inv[OF h] by simp
qed

theorem monotonic_accumulation_witness:
  "scan_images [Inr (Some ''b.avif'')] {''a.avif''} = Inr {''b.avif'', ''a.avif''}
   \<and> {''a.avif''} \<subseteq> {''b.avif'', ''a.avif''}
   \<and> scan_styles [Inr (Some ''background: url(c.avif)'')] {''a.avif''} = Inr {''c.avif'', ''a.avif''}
   \<and> {''a.avif''} \<subseteq> {''c.avif'', ''a.avif''}
   \<and> loop_head (passes demo) (loop_start demo) 1 = Some demo_first_head
   \<and> loop_head (passes demo) (loop_start demo) 2 = Some demo_second_head
   \<and> pass_body (passes demo 1) (fst demo_first_head) (snd demo_first_head)
        = (Inr (Continue, fst demo_second_head), snd demo_second_head)
   \<and> image_urls (fst demo_first_head) \<subseteq> image_urls (fst demo_second_head)
   \<and> scrape_avif_images demo = Some (Returned [''a.avif'', ''b.avif'', ''c.avif''], demo_events, 5)
   \<and> Print Error_occurred \<notin> set demo_events
   \<and> image_urls (fst demo_second_head) \<subseteq> set [''a.avif'', ''b.avif'', ''c.avif'']"
proof -
  have 1: "scan_images [Inr (Some ''b.avif'')] {''a.avif''} = Inr {''b.avif'', ''a.avif''}"
    by code_simp
  have 2: "scan_styles [Inr (Some ''background: url(c.avif)'')] {''a.avif''}
             = Inr {''c.avif'', ''a.avif''}" by code_simp
  have 3: "loop_head (passes demo) (loop_start demo) 1
             = Some (fst demo_first_head, snd demo_first_head)" by code_simp
  have 4: "loop_head (passes demo) (loop_start demo) 2
             = Some (fst demo_second_head, snd demo_second_head)" by code_simp
  have 5: "pass_body (passes demo 1) (fst demo_first_head) (snd demo_first_head)
        = (Inr (Continue, fst demo_second_head), snd demo_second_head)" by code_simp
  have 6: "scrape_avif_images demo
             = Some (Returned [''a.avif'', ''b.avif'', ''c.avif''], demo_events, 5)" by code_simp
  have 7: "Print Error_occurred \<notin> set demo_events" by (simp add: demo_events_def)
  note t = monotonic_accumulation[of "[Inr (Some ''b.avif'')]" "{''a.avif''}" "{''b.avif'', ''a.avif''}"
      "[Inr (Some ''background: url(c.avif)'')]" "{''a.avif''}" "{''c.avif'', ''a.avif''}"
      "passes demo 1" "fst demo_first_head" "snd demo_first_head" Continue
      "fst demo_second_head" "snd demo_second_head"
      "passes demo" "loop_start demo" 1 "fst demo_first_head" "snd demo_first_head"
      2 "fst demo_second_head" "snd demo_second_head"
      demo "[''a.avif'', ''b.avif'', ''c.avif'']" demo_events 5 2
      "fst demo_second_head" "snd demo_second_head"]
  from t 1 have a: "{''a.avif''} \<subseteq> {''b.avif'', ''a.avif''}" by blast
  from t 2 have b: "{''a.avif''} \<subseteq> {''c.avif'', ''a.avif''}" by blast
  from t 5 have c: "image_urls (fst demo_first_head) \<subseteq> image_urls (fst demo_second_head)"
    by blast
  from t 6 7 4 have d: "image_urls (fst demo_second_head) \<subseteq> set [''a.avif'', ''b.avif'', ''c.avif'']"
    by blast
  from 3 4 have e: "loop_head (passes demo) (loop_start demo) 1 = Some demo_first_head"
    "loop_head (passes demo) (loop_start demo) 2 = Some demo_second_head" by simp_all
  from 1 2 5 6 7 a b c d e show ?thesis by blast
qed

text \<open>The claim as the specification states it fails where an exception ends the run:
  on the browser \<open>stale\<close> the set holds two URLs after the first pass, the second pass
  raises, and the run returns the empty list.\<close>

theorem monotonic_accumulation_counterexample:
  "loop_head (passes stale) (loop_start stale) 1 = Some stale_head
   \<and> image_urls (fst stale_head) = {''b.avif'', ''a.avif''}
   \<and> scrape_avif_images stale = Some (Returned [], stale_events, 2)
   \<and> \<not> image_urls (fst stale_head) \<subseteq> set []"
proof -
  have 1: "loop_head (passes stale) (loop_start stale) 1 = Some (fst stale_head, snd stale_head)"
    by code_simp
  have 2: "scrape_avif_images stale = Some (Returned [], stale_events, 2)" by code_simp
  have 3: "image_urls (fst stale_head) = {''b.avif'', ''a.avif''}" by (simp add: stale_head_def)
  from 1 2 3 show ?thesis by simp
qed


text \<open>
  C8, as the code has it. Take a pass whose scans do not raise. If it does not leave the
  loop at the no-growth threshold (whether it has found a new URL or not), it reads the
  geometry of the viewport, so that a read that raises ends the pass by an exception, and
  when the viewport is within 10 pixels of the bottom of the document it sleeps 1, scrolls
  to the bottom and sleeps 2 before the loop goes on. The pass that breaks ends with the
  message of line 83 whatever the reads of the geometry and the extra scroll would answer,
  even an exception: it makes neither the test nor the extra scroll.
\<close>

theorem bottom_check_unless_break:
  assumes "\<not> scan_raises p"
  shows "(\<not> reaches_check s p \<longrightarrow>
            pass_body p s tr =
              (Inr (Break, s\<lparr>image_urls := image_urls s \<union> discovered p,
                              scroll_attempts := scroll_attempts s + 1\<rparr>),
               tr @ [Scroll_to_bottom, Sleep 2, Print (Stopping no_new_images_threshold)]))
       \<and> (reaches_check s p \<and> check_raises p \<longrightarrow> isl (fst (pass_body p s tr)))
       \<and> (reaches_check s p \<and> \<not> check_raises p \<longrightarrow>
            (\<exists>s'. pass_body p s tr =
               (Inr (Continue, s'),
                tr @ [Scroll_to_bottom, Sleep 2]
                   @ (if last_count s < card (image_urls s \<union> discovered p)
                      then [Print (Found (card (image_urls s \<union> discovered p)))] else [])
                   @ (if at_bottom p then [Sleep 1, Scroll_to_bottom, Sleep 2] else []))))"
proof (intro conjI impI)
  assume "\<not> reaches_check s p"
  then show "pass_body p s tr =
              (Inr (Break, s\<lparr>image_urls := image_urls s \<union> discovered p,
                              scroll_attempts := scroll_attempts s + 1\<rparr>),
               tr @ [Scroll_to_bottom, Sleep 2, Print (Stopping no_new_images_threshold)])"
    by (simp add: calm_scan_pass[OF assms] reaches_check_def)
next
  assume "reaches_check s p \<and> check_raises p"
  then show "isl (fst (pass_body p s tr))" by (simp add: pass_raises_iff)
next
  assume a: "reaches_check s p \<and> \<not> check_raises p"
  then have c: "\<not> check_raises p" by simp
  from a show "\<exists>s'. pass_body p s tr =
               (Inr (Continue, s'),
                tr @ [Scroll_to_bottom, Sleep 2]
                   @ (if last_count s < card (image_urls s \<union> discovered p)
                      then [Print (Found (card (image_urls s \<union> discovered p)))] else [])
                   @ (if at_bottom p then [Sleep 1, Scroll_to_bottom, Sleep 2] else []))"
    by (auto simp: calm_scan_pass[OF assms] finish_pass_goes_on[OF c] reaches_check_def)
qed

theorem bottom_check_unless_break_witness:
  "\<not> scan_raises (passes at_the_bottom 0)
   \<and> reaches_check init_state (passes at_the_bottom 0)
   \<and> \<not> check_raises (passes at_the_bottom 0) \<and> at_bottom (passes at_the_bottom 0)
   \<and> (\<exists>s'. pass_body (passes at_the_bottom 0) init_state []
         = (Inr (Continue, s'), [Scroll_to_bottom, Sleep 2, Sleep 1, Scroll_to_bottom, Sleep 2]))
   \<and> \<not> scan_raises unmeasurable \<and> check_raises unmeasurable
   \<and> reaches_check init_state unmeasurable
   \<and> isl (fst (pass_body unmeasurable init_state []))
   \<and> \<not> reaches_check (fst bottom_head) unmeasurable
   \<and> pass_body unmeasurable (fst bottom_head) (snd bottom_head)
        = (Inr (Break, (fst bottom_head)\<lparr>scroll_attempts := 3\<rparr>),
           snd bottom_head @ [Scroll_to_bottom, Sleep 2, Print (Stopping 3)])"
proof -
  have 1: "\<not> scan_raises (passes at_the_bottom 0)"
    "reaches_check init_state (passes at_the_bottom 0)"
    "\<not> check_raises (passes at_the_bottom 0)" "at_bottom (passes at_the_bottom 0)"
    by code_simp+
  have 2: "\<not> scan_raises unmeasurable" "check_raises unmeasurable"
    "reaches_check init_state unmeasurable" "\<not> reaches_check (fst bottom_head) unmeasurable"
    by code_simp+
  have 3: "discovered (passes at_the_bottom 0) = {}" "discovered unmeasurable = {}"
    by code_simp+
  note a = bottom_check_unless_break[OF 1(1), of init_state "[]"]
  note b = bottom_check_unless_break[OF 2(1), of init_state "[]"]
  note c = bottom_check_unless_break[OF 2(1), of "fst bottom_head" "snd bottom_head"]
  from a 1 3 have 4: "\<exists>s'. pass_body (passes at_the_bottom 0) init_state []
         = (Inr (Continue, s'), [Scroll_to_bottom, Sleep 2, Sleep 1, Scroll_to_bottom, Sleep 2])"
    by (simp add: init_state_def)
  from b 2 have 5: "isl (fst (pass_body unmeasurable init_state []))" by blast
  from c 2 3 have 6: "pass_body unmeasurable (fst bottom_head) (snd bottom_head)
        = (Inr (Break, (fst bottom_head)\<lparr>scroll_attempts := 3\<rparr>),
           snd bottom_head @ [Scroll_to_bottom, Sleep 2, Print (Stopping 3)])"
    by (simp add: bottom_head_def no_new_images_threshold_def)
  from 1 2 4 5 6 show ?thesis by blast
qed

text \<open>The claim as the specification states it fails in the iteration that breaks: the
  third pass of \<open>at_the_bottom\<close> is at the bottom of the document like the first two, and
  its events are the scroll, the sleep and the message of line 83 only.\<close>

theorem bottom_check_counterexample:
  "at_bottom (passes at_the_bottom 2)
   \<and> loop_head (passes at_the_bottom) [] 2 = Some bottom_head
   \<and> pass_body (passes at_the_bottom 2) (fst bottom_head) (snd bottom_head)
        = (Inr (Break, (fst bottom_head)\<lparr>scroll_attempts := 3\<rparr>),
           snd bottom_head @ [Scroll_to_bottom, Sleep 2, Print (Stopping 3)])"
proof -
  have 1: "at_bottom (passes at_the_bottom 2)" by code_simp
  have 2: "loop_head (passes at_the_bottom) [] 2 = Some (fst bottom_head, snd bottom_head)"
    by code_simp
  have 3: "pass_body (passes at_the_bottom 2) (fst bottom_head) (snd bottom_head)
        = (Inr (Break, (fst bottom_head)\<lparr>scroll_attempts := 3\<rparr>),
           snd bottom_head @ [Scroll_to_bottom, Sleep 2, Print (Stopping 3)])" by code_simp
  from 1 2 3 show ?thesis by simp
qed

end
